theory Spec2Isabelle
  imports Main "HOL-Library.Word" "HOL-Library.Multiset"
begin

section \<open>JavaScript strings\<close>

text \<open>
  A JavaScript string is a sequence of UTF-16 code units. The title codec compares code
  units with U+29F8 and U+29F9, which lie outside Latin-1, so a code unit is a 16-bit word.
  \<open>js\<close> embeds an ASCII literal of the source.
\<close>

type_synonym jschar = "16 word"
type_synonym jsstring = "jschar list"

definition js :: "string \<Rightarrow> jsstring" where
  "js s = map (\<lambda>c. of_nat (of_char c)) s"

section \<open>Path codec (utils/path\_utils)\<close>

definition SOLIDUS :: jschar where
  "SOLIDUS = 0x2F"

definition FULL_STOP :: jschar where
  "FULL_STOP = 0x2E"

definition BIG_SOLIDUS :: jschar where
  "BIG_SOLIDUS = 0x29F8"

definition BIG_REVERSE_SOLIDUS :: jschar where
  "BIG_REVERSE_SOLIDUS = 0x29F9"

text \<open>
  \<open>unescapeTitle\<close>: the loop over \<open>s[i]\<close> with the local variables \<open>result\<close> and
  \<open>escaped\<close>. An escape character at the very end of the input is dropped, as in the source.
\<close>

fun unescapeLoop :: "jsstring \<Rightarrow> jsstring \<Rightarrow> bool \<Rightarrow> jsstring" where
  "unescapeLoop [] result escaped = result"
| "unescapeLoop (char # s) result escaped =
     (if escaped then unescapeLoop s (result @ [char]) False
      else if char = BIG_REVERSE_SOLIDUS then unescapeLoop s result True
      else if char = BIG_SOLIDUS then unescapeLoop s (result @ [SOLIDUS]) False
      else unescapeLoop s (result @ [char]) False)"

definition unescapeTitle :: "jsstring \<Rightarrow> jsstring" where
  "unescapeTitle s = unescapeLoop s [] False"

text \<open>
  \<open>String.prototype.replace\<close> with a global one-character pattern and a replacement
  without \<open>$\<close>: every occurrence is replaced, the replacement is not scanned again.
\<close>

fun replaceAllChar :: "jschar \<Rightarrow> jsstring \<Rightarrow> jsstring \<Rightarrow> jsstring" where
  "replaceAllChar c r [] = []"
| "replaceAllChar c r (x # xs) = (if x = c then r else [x]) @ replaceAllChar c r xs"

definition escapeTitle :: "jsstring \<Rightarrow> jsstring" where
  "escapeTitle s =
     replaceAllChar SOLIDUS [BIG_SOLIDUS]
       (replaceAllChar BIG_SOLIDUS [BIG_REVERSE_SOLIDUS, BIG_SOLIDUS]
         (replaceAllChar BIG_REVERSE_SOLIDUS [BIG_REVERSE_SOLIDUS, BIG_REVERSE_SOLIDUS] s))"

text \<open>\<open>String.prototype.lastIndexOf\<close> for a one-character needle; \<open>-1\<close> when absent.\<close>

fun lastIndexOfFrom :: "jschar \<Rightarrow> jsstring \<Rightarrow> nat \<Rightarrow> int \<Rightarrow> int" where
  "lastIndexOfFrom c [] i found = found"
| "lastIndexOfFrom c (x # xs) i found =
     lastIndexOfFrom c xs (Suc i) (if x = c then int i else found)"

definition lastIndexOf :: "jsstring \<Rightarrow> jschar \<Rightarrow> int" where
  "lastIndexOf s c = lastIndexOfFrom c s 0 (- 1)"

definition filenameToTitle :: "jsstring \<Rightarrow> jsstring" where
  "filenameToTitle filename =
     (let idxLastDot = lastIndexOf filename FULL_STOP
      in if idxLastDot = - 1 then unescapeTitle filename
         else unescapeTitle (take (nat idxLastDot) filename))"

text \<open>The optional parameter \<open>extension?\<close> is \<open>None\<close> when the caller omits it.\<close>

definition titleToFilename :: "jsstring \<Rightarrow> jsstring option \<Rightarrow> jsstring" where
  "titleToFilename title extension =
     (let titleEscaped = escapeTitle title
      in case extension of
           None \<Rightarrow> titleEscaped
         | Some ext \<Rightarrow>
             if length ext > 0 then titleEscaped @ [FULL_STOP] @ ext else titleEscaped)"

text \<open>The three replacements of \<open>escapeTitle\<close> seen as one map on characters.\<close>

definition escapeChar :: "jschar \<Rightarrow> jsstring" where
  "escapeChar c =
     (if c = BIG_REVERSE_SOLIDUS then [BIG_REVERSE_SOLIDUS, BIG_REVERSE_SOLIDUS]
      else if c = BIG_SOLIDUS then [BIG_REVERSE_SOLIDUS, BIG_SOLIDUS]
      else if c = SOLIDUS then [BIG_SOLIDUS]
      else [c])"

section \<open>Errors, files and meta data\<close>

text \<open>A thrown or rejected \<open>Error\<close> with its message, and the \<open>WrappedError\<close> of \<open>types\<close>.\<close>

datatype Error = Error jsstring

record WrappedError =
  msg :: jsstring
  originalError :: "Error option"

text \<open>
  A \<open>File\<close> as \<open>downloadFiles\<close> builds it: path, sha and raw URL, and then the fetched
  content, or the error of the failed fetch, or neither for a file that is not fetched. Every
  field but the path is optional, as for the files of the edit side.
\<close>

record File =
  path :: jsstring
  sha :: "jsstring option"
  rawUrl :: "jsstring option"
  content :: "jsstring option"
  error :: "WrappedError option"

text \<open>The \<open>MetaData\<close> of \<open>io\<close>, with timestamps as numbers.\<close>

record MetaData =
  labels :: "jsstring list"
  timeCreated :: int
  timeUpdated :: int

section \<open>Tree merge and commit sequencing (octokit)\<close>

subsection \<open>Data\<close>

text \<open>
  \<open>GitOp\<close> is declared in \<open>git_ops\<close>; the code reads \<open>op.kind\<close> (\<open>"write"\<close>,
  \<open>"move"\<close>, and the remaining kind, which deletes), \<open>op.path\<close>, \<open>op.content\<close>,
  \<open>op.pathFrom\<close> and \<open>op.pathTo\<close>.
\<close>

datatype GitOp =
    Write jsstring jsstring
  | Remove jsstring
  | Move jsstring jsstring

text \<open>
  An entry of \<open>GitGetTreeResponseData.tree\<close>, with the four fields \<open>applyOps\<close> reads,
  and the response itself with its \<open>truncated\<close> flag.
\<close>

record TreeEntry =
  path :: jsstring
  mode :: jsstring
  type :: jsstring
  sha :: jsstring

record GitGetTreeResponseData =
  tree :: "TreeEntry list"
  truncated :: bool

text \<open>\<open>GitCreateTreeParamsTree\<close>: every field is optional in the source.\<close>

record GitCreateTreeParamsTree =
  path :: "jsstring option"
  mode :: "jsstring option"
  type :: "jsstring option"
  sha :: "jsstring option"
  content :: "jsstring option"

text \<open>
  \<open>Repo\<close> is declared in \<open>repo\<close>; the code under verification reads \<open>key\<close>,
  \<open>userName\<close>, \<open>repoName\<close> and \<open>token\<close>. Whatever else a repo carries (such as a
  configured branch) is the extension part of the record, over which the functions on repos
  are polymorphic.
\<close>

record Repo =
  key :: jsstring
  userName :: jsstring
  repoName :: jsstring
  token :: jsstring

subsection \<open>applyOps\<close>

text \<open>
  The inner loop over \<open>ops\<close> for one old entry, with the local variables \<open>keep\<close> and
  \<open>destinationPath\<close>; the \<open>break\<close> ends the loop at the first write or delete of the
  entry's path.
\<close>

fun scanOps :: "GitOp list \<Rightarrow> jsstring \<Rightarrow> bool \<Rightarrow> jsstring \<Rightarrow> bool \<times> jsstring" where
  "scanOps [] entryPath keep destinationPath = (keep, destinationPath)"
| "scanOps (Write p c # ops) entryPath keep destinationPath =
     (if p = entryPath then (False, destinationPath)
      else scanOps ops entryPath keep destinationPath)"
| "scanOps (Remove p # ops) entryPath keep destinationPath =
     (if p = entryPath then (False, destinationPath)
      else scanOps ops entryPath keep destinationPath)"
| "scanOps (Move pathFrom pathTo # ops) entryPath keep destinationPath =
     (if pathFrom = entryPath then scanOps ops entryPath keep pathTo
      else scanOps ops entryPath keep destinationPath)"

text \<open>The outer loop over the old tree, pushing onto \<open>newTree\<close>.\<close>

fun mergeExisting ::
  "GitOp list \<Rightarrow> TreeEntry list \<Rightarrow> GitCreateTreeParamsTree list \<Rightarrow> GitCreateTreeParamsTree list"
where
  "mergeExisting ops [] newTree = newTree"
| "mergeExisting ops (entry # entries) newTree =
     (let (keep0, destinationPath) = scanOps ops (TreeEntry.path entry) True (TreeEntry.path entry);
          keep = (if TreeEntry.type entry = js ''tree'' then False else keep0)
      in mergeExisting ops entries
           (if keep
            then newTree @ [\<lparr>path = Some destinationPath, mode = Some (TreeEntry.mode entry),
                             type = Some (TreeEntry.type entry), sha = Some (TreeEntry.sha entry),
                             content = None\<rparr>]
            else newTree))"

text \<open>The second loop, pushing one blob per write op.\<close>

fun mergeWrites :: "GitOp list \<Rightarrow> GitCreateTreeParamsTree list \<Rightarrow> GitCreateTreeParamsTree list"
where
  "mergeWrites [] newTree = newTree"
| "mergeWrites (Write p c # ops) newTree =
     mergeWrites ops
       (newTree @ [\<lparr>path = Some p, mode = Some (js ''100644''), type = Some (js ''blob''),
                     sha = None, content = Some c\<rparr>])"
| "mergeWrites (Remove p # ops) newTree = mergeWrites ops newTree"
| "mergeWrites (Move pathFrom pathTo # ops) newTree = mergeWrites ops newTree"

definition applyOps :: "GitOp list \<Rightarrow> GitGetTreeResponseData \<Rightarrow> GitCreateTreeParamsTree list" where
  "applyOps ops oldTree = mergeWrites ops (mergeExisting ops (tree oldTree) [])"

subsection \<open>The remote and the result chain\<close>

text \<open>
  The six endpoints of the remote used by \<open>commit\<close>, reached through the client built from
  the repo's token. Each call takes the remote's state and returns either the rejection of
  the promise or the part of \<open>response.data\<close> the code reads, with the new state:
  \<open>data.object.sha\<close> for a ref, \<open>data.tree.sha\<close> for a commit, \<open>data\<close> for a tree,
  \<open>data.sha\<close> for a created tree or commit.
\<close>

record 's Octokit =
  git_getRef :: "jsstring \<Rightarrow> jsstring \<Rightarrow> jsstring \<Rightarrow> 's \<Rightarrow> (Error + jsstring) \<times> 's"
  git_getCommit :: "jsstring \<Rightarrow> jsstring \<Rightarrow> jsstring \<Rightarrow> 's \<Rightarrow> (Error + jsstring) \<times> 's"
  git_getTree ::
    "jsstring \<Rightarrow> jsstring \<Rightarrow> jsstring \<Rightarrow> jsstring \<Rightarrow> 's \<Rightarrow> (Error + GitGetTreeResponseData) \<times> 's"
  git_createTree ::
    "jsstring \<Rightarrow> jsstring \<Rightarrow> GitCreateTreeParamsTree list \<Rightarrow> 's \<Rightarrow> (Error + jsstring) \<times> 's"
  git_createCommit ::
    "jsstring \<Rightarrow> jsstring \<Rightarrow> jsstring \<Rightarrow> jsstring list \<Rightarrow> jsstring \<Rightarrow> 's \<Rightarrow> (Error + jsstring) \<times> 's"
  git_updateRef ::
    "jsstring \<Rightarrow> jsstring \<Rightarrow> jsstring \<Rightarrow> jsstring \<Rightarrow> bool \<Rightarrow> 's \<Rightarrow> (Error + unit) \<times> 's"

text \<open>The requests sent, in the order of sending, with the parameters of each.\<close>

datatype Request =
    GetRef jsstring jsstring jsstring
  | GetCommit jsstring jsstring jsstring
  | GetTree jsstring jsstring jsstring jsstring
  | CreateTree jsstring jsstring "GitCreateTreeParamsTree list"
  | CreateCommit jsstring jsstring jsstring "jsstring list" jsstring
  | UpdateRef jsstring jsstring jsstring jsstring bool

text \<open>
  A \<open>ResultAsync\<close> is run against the remote's state and the log of requests; it yields an
  error or a value. \<open>andThen\<close> and \<open>map\<close> skip their function on an error.
\<close>

type_synonym ('s, 'a) ResultAsync = "'s \<times> Request list \<Rightarrow> (WrappedError + 'a) \<times> ('s \<times> Request list)"

definition okAsync :: "'a \<Rightarrow> ('s, 'a) ResultAsync" where
  "okAsync a = (\<lambda>st. (Inr a, st))"

definition errAsync :: "WrappedError \<Rightarrow> ('s, 'a) ResultAsync" where
  "errAsync e = (\<lambda>st. (Inl e, st))"

definition andThen :: "('s, 'a) ResultAsync \<Rightarrow> ('a \<Rightarrow> ('s, 'b) ResultAsync) \<Rightarrow> ('s, 'b) ResultAsync" where
  "andThen m f = (\<lambda>st. case m st of (Inl e, st') \<Rightarrow> (Inl e, st') | (Inr a, st') \<Rightarrow> f a st')"

definition mapResult :: "('s, 'a) ResultAsync \<Rightarrow> ('a \<Rightarrow> 'b) \<Rightarrow> ('s, 'b) ResultAsync" where
  "mapResult m f = (\<lambda>st. case m st of (Inl e, st') \<Rightarrow> (Inl e, st') | (Inr a, st') \<Rightarrow> (Inr (f a), st'))"

text \<open>
  \<open>wrapPromise\<close> turns a rejection into a \<open>WrappedError\<close> with the given message. The
  request is logged when the promise is created, that is when the endpoint is called.
\<close>

definition wrapPromise ::
  "Request \<Rightarrow> ('s \<Rightarrow> (Error + 'a) \<times> 's) \<Rightarrow> jsstring \<Rightarrow> ('s, 'a) ResultAsync" where
  "wrapPromise request promise message =
     (\<lambda>(remote, log).
        case promise remote of
          (Inl rejection, remote') \<Rightarrow>
            (Inl \<lparr>msg = message, originalError = Some rejection\<rparr>, (remote', log @ [request]))
        | (Inr value, remote') \<Rightarrow> (Inr value, (remote', log @ [request])))"

definition startChain :: "('s, unit) ResultAsync" where
  "startChain = okAsync ()"

subsection \<open>The endpoint wrappers\<close>

text \<open>\<open>octokitGetRef\<close> ignores its \<open>ref\<close> parameter: the source passes the literal.\<close>

definition octokitGetRef ::
  "'s Octokit \<Rightarrow> 'r Repo_scheme \<Rightarrow> jsstring \<Rightarrow> ('s, jsstring) ResultAsync" where
  "octokitGetRef octokit repo ref =
     wrapPromise (GetRef (userName repo) (repoName repo) (js ''heads/main''))
       (git_getRef octokit (userName repo) (repoName repo) (js ''heads/main''))
       (js ''Failed to get head ref.'')"

definition octokitGetCommit ::
  "'s Octokit \<Rightarrow> 'r Repo_scheme \<Rightarrow> jsstring \<Rightarrow> ('s, jsstring) ResultAsync" where
  "octokitGetCommit octokit repo commitSHA =
     wrapPromise (GetCommit (userName repo) (repoName repo) commitSHA)
       (git_getCommit octokit (userName repo) (repoName repo) commitSHA)
       (js ''Failed to get head commit.'')"

definition octokitGetTree ::
  "'s Octokit \<Rightarrow> 'r Repo_scheme \<Rightarrow> jsstring \<Rightarrow> ('s, GitGetTreeResponseData) ResultAsync" where
  "octokitGetTree octokit repo treeSHA =
     wrapPromise (GetTree (userName repo) (repoName repo) treeSHA (js ''true''))
       (git_getTree octokit (userName repo) (repoName repo) treeSHA (js ''true''))
       (js ''Failed to get tree with sha '' @ treeSHA @ js ''.'')"

definition octokitCreateTree ::
  "'s Octokit \<Rightarrow> 'r Repo_scheme \<Rightarrow> GitCreateTreeParamsTree list \<Rightarrow> ('s, jsstring) ResultAsync" where
  "octokitCreateTree octokit repo newTree =
     wrapPromise (CreateTree (userName repo) (repoName repo) newTree)
       (git_createTree octokit (userName repo) (repoName repo) newTree)
       (js ''Failed to create tree.'')"

definition octokitCreateCommit ::
  "'s Octokit \<Rightarrow> 'r Repo_scheme \<Rightarrow> jsstring \<Rightarrow> jsstring \<Rightarrow> jsstring \<Rightarrow> ('s, jsstring) ResultAsync" where
  "octokitCreateCommit octokit repo commitMsg oldCommitSHA newTreeSHA =
     wrapPromise (CreateCommit (userName repo) (repoName repo) commitMsg [oldCommitSHA] newTreeSHA)
       (git_createCommit octokit (userName repo) (repoName repo) commitMsg [oldCommitSHA] newTreeSHA)
       (js ''Failed to create commit.'')"

definition octokitUpdateRef ::
  "'s Octokit \<Rightarrow> 'r Repo_scheme \<Rightarrow> jsstring \<Rightarrow> jsstring \<Rightarrow> ('s, unit) ResultAsync" where
  "octokitUpdateRef octokit repo ref commitSHA =
     wrapPromise (UpdateRef (userName repo) (repoName repo) ref commitSHA True)
       (git_updateRef octokit (userName repo) (repoName repo) ref commitSHA True)
       (js ''Failed to update ref.'')"

subsection \<open>commit\<close>

definition truncatedError :: WrappedError where
  "truncatedError =
     \<lparr>msg = js ''Tree has been truncated -- handling that many files is not supported yet.'',
      originalError = None\<rparr>"

text \<open>
  The chain of \<open>commit\<close>. The variables \<open>oldCommitSHA\<close> and \<open>newCommitSHA\<close> of the
  enclosing function, assigned in one step and read in a later one, are the bound variables
  of the nested steps.
\<close>

definition commit ::
  "'s Octokit \<Rightarrow> 'r Repo_scheme \<Rightarrow> GitOp list \<Rightarrow> jsstring \<Rightarrow> ('s, jsstring) ResultAsync" where
  "commit octokit repo ops commitMsg =
     andThen startChain (\<lambda>_.
     andThen (octokitGetRef octokit repo (js ''heads/main'')) (\<lambda>oldCommitSHA.
     andThen (octokitGetCommit octokit repo oldCommitSHA) (\<lambda>oldTreeSHA.
     andThen (octokitGetTree octokit repo oldTreeSHA) (\<lambda>oldTree.
     andThen (if truncated oldTree then errAsync truncatedError
              else octokitCreateTree octokit repo (applyOps ops oldTree)) (\<lambda>newTreeSHA.
     andThen (octokitCreateCommit octokit repo commitMsg oldCommitSHA newTreeSHA) (\<lambda>newCommitSHA.
     mapResult (octokitUpdateRef octokit repo (js ''heads/main'') newCommitSHA)
       (\<lambda>_. newCommitSHA)))))))"

subsection \<open>Notions used to state the properties of the tree merge\<close>

text \<open>An op targets a path for write or delete.\<close>

fun targetsPath :: "GitOp \<Rightarrow> jsstring \<Rightarrow> bool" where
  "targetsPath (Write p c) entryPath = (p = entryPath)"
| "targetsPath (Remove p) entryPath = (p = entryPath)"
| "targetsPath (Move pathFrom pathTo) entryPath = False"

text \<open>The entry pushed for a kept old entry, and the entries pushed for one op by the second loop.\<close>

fun keptEntry :: "jsstring \<Rightarrow> TreeEntry \<Rightarrow> GitCreateTreeParamsTree" where
  "keptEntry destinationPath entry =
     \<lparr>path = Some destinationPath, mode = Some (TreeEntry.mode entry),
      type = Some (TreeEntry.type entry), sha = Some (TreeEntry.sha entry), content = None\<rparr>"

definition keptEntries :: "GitOp list \<Rightarrow> TreeEntry \<Rightarrow> GitCreateTreeParamsTree list" where
  "keptEntries ops entry =
     (if TreeEntry.type entry \<noteq> js ''tree'' \<and>
         fst (scanOps ops (TreeEntry.path entry) True (TreeEntry.path entry))
      then [keptEntry (snd (scanOps ops (TreeEntry.path entry) True (TreeEntry.path entry))) entry]
      else [])"

fun writtenEntries :: "GitOp \<Rightarrow> GitCreateTreeParamsTree list" where
  "writtenEntries (Write p c) =
     [\<lparr>path = Some p, mode = Some (js ''100644''), type = Some (js ''blob''),
       sha = None, content = Some c\<rparr>]"
| "writtenEntries (Remove p) = []"
| "writtenEntries (Move pathFrom pathTo) = []"

subsection \<open>An example remote and repo\<close>

text \<open>
  A remote whose state counts the objects created so far. Its tree has one file and is
  flagged truncated or not. The example repo carries a branch name in its extension part.
\<close>

definition exampleRemote :: "bool \<Rightarrow> nat Octokit" where
  "exampleRemote isTruncated =
     \<lparr>git_getRef = (\<lambda>owner name ref n. (Inr (js ''c0''), n)),
      git_getCommit = (\<lambda>owner name commitSHA n. (Inr (js ''t0''), n)),
      git_getTree = (\<lambda>owner name treeSHA recursive n.
         (Inr \<lparr>tree = [\<lparr>TreeEntry.path = js ''a.md'', mode = js ''100644'', type = js ''blob'',
                          sha = js ''b0''\<rparr>],
               truncated = isTruncated\<rparr>, n)),
      git_createTree = (\<lambda>owner name newTree n. (Inr (js ''t1''), Suc n)),
      git_createCommit = (\<lambda>owner name message parents newTreeSHA n. (Inr (js ''c1''), Suc n)),
      git_updateRef = (\<lambda>owner name ref commitSHA force n. (Inr (), n))\<rparr>"

definition exampleRepo :: "jsstring Repo_scheme" where
  "exampleRepo =
     \<lparr>key = js ''u/r'', userName = js ''u'', repoName = js ''r'', token = js ''secret'',
      \<dots> = js ''develop''\<rparr>"

text \<open>
  A remote whose state is the table of its refs. Reading a ref looks it up in the table; the
  update of a ref either is rejected, the table unchanged, or sets the ref to the given SHA.
\<close>

definition exampleRefRemote :: "bool \<Rightarrow> (jsstring \<times> jsstring) list Octokit" where
  "exampleRefRemote isProtected =
     \<lparr>git_getRef = (\<lambda>owner name ref refs.
         (case map_of refs ref of
            Some commitSHA \<Rightarrow> Inr commitSHA
          | None \<Rightarrow> Inl (Error (js ''Not Found'')), refs)),
      git_getCommit = (\<lambda>owner name commitSHA refs. (Inr (js ''t0''), refs)),
      git_getTree = (\<lambda>owner name treeSHA recursive refs.
         (Inr \<lparr>tree = [\<lparr>TreeEntry.path = js ''a.md'', mode = js ''100644'', type = js ''blob'',
                          sha = js ''b0''\<rparr>],
               truncated = False\<rparr>, refs)),
      git_createTree = (\<lambda>owner name newTree refs. (Inr (js ''t1''), refs)),
      git_createCommit = (\<lambda>owner name message parents newTreeSHA refs. (Inr (js ''c1''), refs)),
      git_updateRef = (\<lambda>owner name ref commitSHA force refs.
         if isProtected then (Inl (Error (js ''Reference update failed'')), refs)
         else (Inr (), (ref, commitSHA) # filter (\<lambda>(ref', commitSHA'). ref' \<noteq> ref) refs))\<rparr>"

section \<open>Entries (types, utils/entry\_utils)\<close>

subsection \<open>Data\<close>

text \<open>
  The types of \<open>types\<close>, as far as the code reads them. Timestamps are numbers. The
  content of a file entry is a note or a document; the content of a link entry holds the
  notes that reference it. An entry is generic in its content, as \<open>EntryFile\<close>,
  \<open>EntryLink\<close> and \<open>Entry\<close> are in the source; \<open>key\<close> and \<open>idx\<close> are absent until
  \<open>recomputeKey\<close> and \<open>sortAndIndexEntries\<close> assign them.
\<close>

datatype EntryKind = NoteMarkdown | Document | Link

type_synonym Date = int

record ContentDoc =
  repo :: Repo
  location :: jsstring
  extension :: jsstring
  timeCreated :: Date
  timeUpdated :: Date
  rawUrl :: "jsstring option"

record ContentNote = ContentDoc +
  text' :: jsstring
  html :: jsstring
  links :: "jsstring list"

datatype ContentFile = Note ContentNote | Doc ContentDoc

record 'c Entry =
  title :: jsstring
  priority :: int
  labels :: "jsstring list"
  content :: 'c
  key :: "jsstring option"
  idx :: "nat option"

type_synonym EntryFile = "ContentFile Entry"

record ContentLink =
  target :: jsstring
  referencedBy :: "EntryFile list"
  standaloneRepo :: "Repo option"
  refRepos :: "Repo list"
  refLocations :: "jsstring list"
  ownLabels :: "jsstring list"

type_synonym EntryLink = "ContentLink Entry"

datatype Content = FileContent ContentFile | LinkContent ContentLink

type_synonym Entries = "Content Entry list"

text \<open>\<open>content.kind\<close>, the tag of the union.\<close>

fun kind :: "Content \<Rightarrow> EntryKind" where
  "kind (FileContent (Note n)) = NoteMarkdown"
| "kind (FileContent (Doc d)) = Document"
| "kind (LinkContent l) = Link"

text \<open>
  A file entry and a link entry seen as an \<open>Entry\<close>, which is what the spread
  \<open>[...fileEntries, ...linkEntries]\<close> does to the elements of the two arrays.
\<close>

definition entryOfFile :: "EntryFile \<Rightarrow> Content Entry" where
  "entryOfFile e =
     \<lparr>title = title e, priority = priority e, labels = labels e,
      content = FileContent (content e), key = key e, idx = idx e\<rparr>"

definition entryOfLink :: "EntryLink \<Rightarrow> Content Entry" where
  "entryOfLink e =
     \<lparr>title = title e, priority = priority e, labels = labels e,
      content = LinkContent (content e), key = key e, idx = idx e\<rparr>"

subsection \<open>sortAndIndexEntries\<close>

fun entryKindNumericValues :: "EntryKind \<Rightarrow> int" where
  "entryKindNumericValues NoteMarkdown = 0"
| "entryKindNumericValues Document = 1"
| "entryKindNumericValues Link = 2"

text \<open>
  The comparator passed to \<open>sort\<close>. \<open>String.prototype.toLowerCase\<close> and
  \<open>String.prototype.localeCompare\<close> depend on the Unicode tables and on the locale of the
  host; they are parameters.
\<close>

definition compareEntries ::
  "(jsstring \<Rightarrow> jsstring) \<Rightarrow> (jsstring \<Rightarrow> jsstring \<Rightarrow> int) \<Rightarrow> Content Entry \<Rightarrow> Content Entry \<Rightarrow> int"
where
  "compareEntries toLowerCase localeCompare a b =
     (if kind (content a) \<noteq> kind (content b)
      then entryKindNumericValues (kind (content a)) - entryKindNumericValues (kind (content b))
      else localeCompare (toLowerCase (title a)) (toLowerCase (title b)))"

text \<open>
  \<open>Array.prototype.sort\<close> is stable, and for a consistent comparator its result is the
  one sorted permutation that keeps tied elements in their order. Insertion from the right
  computes it: an element goes before the first element of the sorted rest that it does not
  exceed.
\<close>

fun insertSorted :: "('a \<Rightarrow> 'a \<Rightarrow> int) \<Rightarrow> 'a \<Rightarrow> 'a list \<Rightarrow> 'a list" where
  "insertSorted compareFn x [] = [x]"
| "insertSorted compareFn x (y # ys) =
     (if compareFn x y \<le> 0 then x # y # ys else y # insertSorted compareFn x ys)"

definition arraySort :: "('a \<Rightarrow> 'a \<Rightarrow> int) \<Rightarrow> 'a list \<Rightarrow> 'a list" where
  "arraySort compareFn xs = foldr (insertSorted compareFn) xs []"

text \<open>The loop \<open>entries[i].idx = i\<close>.\<close>

fun assignIdx :: "nat \<Rightarrow> ('c, 'm) Entry_scheme list \<Rightarrow> ('c, 'm) Entry_scheme list" where
  "assignIdx i [] = []"
| "assignIdx i (e # es) = e\<lparr>idx := Some i\<rparr> # assignIdx (Suc i) es"

text \<open>The source sorts and indexes the array in place; the model returns the array.\<close>

definition sortAndIndexEntries ::
  "(jsstring \<Rightarrow> jsstring) \<Rightarrow> (jsstring \<Rightarrow> jsstring \<Rightarrow> int) \<Rightarrow> Entries \<Rightarrow> Entries" where
  "sortAndIndexEntries toLowerCase localeCompare entries =
     assignIdx 0 (arraySort (compareEntries toLowerCase localeCompare) entries)"

text \<open>
  A comparator is consistent when the sign of a comparison flips with its arguments and
  ``not after'' is transitive, which ECMAScript demands of \<open>localeCompare\<close>.
\<close>

definition consistentComparator :: "('a \<Rightarrow> 'a \<Rightarrow> int) \<Rightarrow> bool" where
  "consistentComparator compareFn \<longleftrightarrow>
     (\<forall>a b. (compareFn a b < 0) = (0 < compareFn b a)) \<and>
     (\<forall>a b c. compareFn a b \<le> 0 \<and> compareFn b c \<le> 0 \<longrightarrow> compareFn a c \<le> 0)"

text \<open>
  The order the sort is to establish: first by the rank of the kind, then by the comparison
  of the lower-cased titles.
\<close>

definition entryNotAfter ::
  "(jsstring \<Rightarrow> jsstring) \<Rightarrow> (jsstring \<Rightarrow> jsstring \<Rightarrow> int) \<Rightarrow> Content Entry \<Rightarrow> Content Entry \<Rightarrow> bool"
where
  "entryNotAfter toLowerCase localeCompare a b \<longleftrightarrow>
     entryKindNumericValues (kind (content a)) < entryKindNumericValues (kind (content b)) \<or>
     (kind (content a) = kind (content b) \<and>
      localeCompare (toLowerCase (title a)) (toLowerCase (title b)) \<le> 0)"

text \<open>
  Comparison of code units and lower-casing of the ASCII letters: one consistent choice of
  the two parameters, used to run the sort on examples.
\<close>

fun codeUnitCompare :: "jsstring \<Rightarrow> jsstring \<Rightarrow> int" where
  "codeUnitCompare [] [] = 0"
| "codeUnitCompare [] (y # ys) = - 1"
| "codeUnitCompare (x # xs) [] = 1"
| "codeUnitCompare (x # xs) (y # ys) =
     (if x < y then - 1 else if y < x then 1 else codeUnitCompare xs ys)"

definition asciiToLowerCase :: "jsstring \<Rightarrow> jsstring" where
  "asciiToLowerCase s = map (\<lambda>c. if 0x41 \<le> c \<and> c \<le> 0x5A then c + 0x20 else c) s"

section \<open>Link reconciliation (utils/entry\_utils)\<close>

subsection \<open>Merging\<close>

text \<open>
  \<open>label_utils.normalizeLabels\<close> and \<open>getRepoId\<close> of \<open>repo\<close> are not among the sources;
  they are parameters of the functions that call them.
\<close>

definition mergeLabels ::
  "(jsstring list \<Rightarrow> jsstring list) \<Rightarrow> jsstring list \<Rightarrow> jsstring list \<Rightarrow> jsstring list" where
  "mergeLabels normalizeLabels existingLabels incomingLabels =
     normalizeLabels (existingLabels @ incomingLabels)"

definition mergeRepos :: "(Repo \<Rightarrow> 'i) \<Rightarrow> Repo list \<Rightarrow> Repo \<Rightarrow> Repo list" where
  "mergeRepos getRepoId existingRepos incomingRepo =
     (if \<not> list_ex (\<lambda>existingRepo. getRepoId existingRepo = getRepoId incomingRepo) existingRepos
      then existingRepos @ [incomingRepo]
      else existingRepos)"

definition mergeLocations :: "jsstring list \<Rightarrow> jsstring \<Rightarrow> jsstring list" where
  "mergeLocations existingLocations incomingLocation =
     (if \<not> list_ex (\<lambda>existingLocation. existingLocation = incomingLocation) existingLocations
      then existingLocations @ [incomingLocation]
      else existingLocations)"

text \<open>\<open>recomputeKey\<close> on a link entry (its second branch).\<close>

definition recomputeKeyLink :: "EntryLink \<Rightarrow> EntryLink" where
  "recomputeKeyLink entry = entry\<lparr>key := Some (js ''__link_'' @ target (content entry))\<rparr>"

subsection \<open>Object literals as dictionaries\<close>

text \<open>
  \<open>linkMap\<close> and \<open>linkInserted\<close> are object literals \<open>{}\<close> used as dictionaries. The
  operator \<open>in\<close> follows the prototype chain: \<open>k in obj\<close> holds for the own keys of
  \<open>obj\<close> and for the property names of \<open>Object.prototype\<close>. For such a name that is not
  an own key, \<open>obj[k]\<close> is the inherited value (a function, or the prototype object), whose
  \<open>content\<close> is undefined, so that reading \<open>obj[k].content.referencedBy\<close> throws a
  \<open>TypeError\<close>. The code never assigns such a key, since it assigns only keys that are
  not \<open>in\<close> the object.
\<close>

definition objectPrototypeKeys :: "jsstring list" where
  "objectPrototypeKeys =
     map js [''constructor'', ''__defineGetter__'', ''__defineSetter__'', ''hasOwnProperty'',
             ''__lookupGetter__'', ''__lookupSetter__'', ''isPrototypeOf'',
             ''propertyIsEnumerable'', ''toString'', ''valueOf'', ''__proto__'',
             ''toLocaleString'']"

definition inObject :: "(jsstring \<rightharpoonup> 'v) \<Rightarrow> jsstring \<Rightarrow> bool" where
  "inObject obj k \<longleftrightarrow> obj k \<noteq> None \<or> k \<in> set objectPrototypeKeys"

datatype JsException = TypeError

subsection \<open>recomputeLinkEntries\<close>

text \<open>
  The link objects are shared: \<open>linkEntries\<close> and \<open>linkMap\<close> hold references to the same
  objects, and the second loop mutates objects that the first has already pushed. The model
  keeps each object once, in \<open>linkMap\<close> under its target, where the code always puts it;
  \<open>linkEntries\<close> holds the targets in the order of the pushes, and is dereferenced when
  the function returns.
\<close>

record LinkState =
  linkEntries :: "jsstring list"
  linkMap :: "jsstring \<rightharpoonup> EntryLink"
  linkInserted :: "jsstring \<rightharpoonup> bool"

text \<open>The four assignments that reset an existing link.\<close>

definition resetLink :: "EntryLink \<Rightarrow> EntryLink" where
  "resetLink link =
     link\<lparr>content := (content link)\<lparr>referencedBy := [], refRepos := [], refLocations := []\<rparr>,
           labels := ownLabels (content link)\<rparr>"

fun existingLinksLoop :: "EntryLink list \<Rightarrow> LinkState \<Rightarrow> LinkState" where
  "existingLinksLoop [] st = st"
| "existingLinksLoop (link0 # rest) st =
     (let link = resetLink link0;
          linkTarget = target (content link)
      in if \<not> inObject (linkMap st) linkTarget
         then
           (let st1 =
                  (if standaloneRepo (content link) \<noteq> None
                   then st\<lparr>linkEntries := linkEntries st @ [linkTarget],
                           linkInserted := (linkInserted st)(linkTarget \<mapsto> True)\<rparr>
                   else st)
            in existingLinksLoop rest (st1\<lparr>linkMap := (linkMap st1)(linkTarget \<mapsto> link)\<rparr>))
         else existingLinksLoop rest st)"

text \<open>The link entry created for a target seen for the first time.\<close>

definition newLinkEntry :: "EntryFile \<Rightarrow> ContentNote \<Rightarrow> jsstring \<Rightarrow> EntryLink" where
  "newLinkEntry entry note linkTarget =
     recomputeKeyLink
       \<lparr>title = linkTarget, priority = 0, labels = labels entry,
        content = \<lparr>target = linkTarget, referencedBy = [entry], standaloneRepo = None,
                   refRepos = [repo note], refLocations = [location note], ownLabels = []\<rparr>,
        key = None, idx = None\<rparr>"

text \<open>The mutation of a link entry that is referenced once more.\<close>

definition addReference ::
  "(Repo \<Rightarrow> 'i) \<Rightarrow> (jsstring list \<Rightarrow> jsstring list) \<Rightarrow> EntryFile \<Rightarrow> ContentNote \<Rightarrow> EntryLink \<Rightarrow> EntryLink"
where
  "addReference getRepoId normalizeLabels entry note linkEntry =
     linkEntry
       \<lparr>content := (content linkEntry)
          \<lparr>referencedBy := referencedBy (content linkEntry) @ [entry],
           refRepos := mergeRepos getRepoId (refRepos (content linkEntry)) (repo note),
           refLocations := mergeLocations (refLocations (content linkEntry)) (location note)\<rparr>,
        labels := mergeLabels normalizeLabels (labels linkEntry) (labels entry)\<rparr>"

text \<open>The loop over \<open>entry.content.links\<close> of one note.\<close>

fun linkTargetsLoop ::
  "(Repo \<Rightarrow> 'i) \<Rightarrow> (jsstring list \<Rightarrow> jsstring list) \<Rightarrow> EntryFile \<Rightarrow> ContentNote \<Rightarrow>
   jsstring list \<Rightarrow> LinkState \<Rightarrow> JsException + LinkState"
where
  "linkTargetsLoop getRepoId normalizeLabels entry note [] st = Inr st"
| "linkTargetsLoop getRepoId normalizeLabels entry note (linkTarget # rest) st =
     (if \<not> inObject (linkMap st) linkTarget
      then linkTargetsLoop getRepoId normalizeLabels entry note rest
             (st\<lparr>linkEntries := linkEntries st @ [linkTarget],
                 linkInserted := (linkInserted st)(linkTarget \<mapsto> True),
                 linkMap := (linkMap st)(linkTarget \<mapsto> newLinkEntry entry note linkTarget)\<rparr>)
      else
        (case linkMap st linkTarget of
           None \<Rightarrow> Inl TypeError
         | Some linkEntry0 \<Rightarrow>
             (let linkEntry = addReference getRepoId normalizeLabels entry note linkEntry0;
                  st1 = st\<lparr>linkMap := (linkMap st)(linkTarget \<mapsto> linkEntry)\<rparr>
              in linkTargetsLoop getRepoId normalizeLabels entry note rest
                   (if \<not> inObject (linkInserted st1) linkTarget
                    then st1\<lparr>linkEntries := linkEntries st1 @ [linkTarget],
                             linkInserted :=
                               (linkInserted st1)(target (content linkEntry) \<mapsto> True)\<rparr>
                    else st1))))"

text \<open>The loop over \<open>fileEntries\<close>; only notes have links.\<close>

fun fileEntriesLoop ::
  "(Repo \<Rightarrow> 'i) \<Rightarrow> (jsstring list \<Rightarrow> jsstring list) \<Rightarrow> EntryFile list \<Rightarrow> LinkState \<Rightarrow>
   JsException + LinkState"
where
  "fileEntriesLoop getRepoId normalizeLabels [] st = Inr st"
| "fileEntriesLoop getRepoId normalizeLabels (entry # rest) st =
     (case content entry of
        Note note \<Rightarrow>
          (case linkTargetsLoop getRepoId normalizeLabels entry note (links note) st of
             Inl exception \<Rightarrow> Inl exception
           | Inr st' \<Rightarrow> fileEntriesLoop getRepoId normalizeLabels rest st')
      | Doc doc \<Rightarrow> fileEntriesLoop getRepoId normalizeLabels rest st)"

definition recomputeLinkEntries ::
  "(Repo \<Rightarrow> 'i) \<Rightarrow> (jsstring list \<Rightarrow> jsstring list) \<Rightarrow> EntryFile list \<Rightarrow> EntryLink list \<Rightarrow>
   JsException + EntryLink list"
where
  "recomputeLinkEntries getRepoId normalizeLabels fileEntries existingLinkEntries =
     (case fileEntriesLoop getRepoId normalizeLabels fileEntries
             (existingLinksLoop existingLinkEntries
                \<lparr>linkEntries = [], linkMap = Map.empty, linkInserted = Map.empty\<rparr>) of
        Inl exception \<Rightarrow> Inl exception
      | Inr st \<Rightarrow> Inr (List.map_filter (linkMap st) (linkEntries st)))"

subsection \<open>recomputeEntries\<close>

text \<open>
  The array \<open>entries\<close> holds the objects of \<open>fileEntries\<close> and of \<open>linkEntries\<close>
  themselves, and a link holds in \<open>referencedBy\<close> the objects of \<open>fileEntries\<close> that
  reference it. So the loop of \<open>sortAndIndexEntries\<close> writes \<open>idx\<close> into the very links
  that are returned, and into the file entries that they reference.

  An object is named by its position in \<open>[...fileEntries, ...linkEntries]\<close>:
  \<open>sortedOrder\<close> is the array of these names after the sort, and the loop gives an object
  the position of its name there.
\<close>

definition sortedOrder :: "('a \<Rightarrow> 'a \<Rightarrow> int) \<Rightarrow> 'a list \<Rightarrow> nat list" where
  "sortedOrder compareFn objects =
     map fst (arraySort (\<lambda>a b. compareFn (snd a) (snd b)) (enumerate 0 objects))"

definition assignedIdx :: "'a list \<Rightarrow> 'a \<Rightarrow> nat" where
  "assignedIdx order name = length (takeWhile (\<lambda>i. i \<noteq> name) order)"

text \<open>
  A reference to a file object is a file entry whose \<open>idx\<close> holds the name of the object.
  The loop overwrites the \<open>idx\<close> of every file object, and \<open>recomputeLinkEntries\<close>
  reads the \<open>idx\<close> of no file entry, so the \<open>idx\<close> that a file entry has when
  \<open>recomputeEntries\<close> is called shows nowhere in the result.
\<close>

definition fileObjects :: "EntryFile list \<Rightarrow> EntryFile list" where
  "fileObjects fileEntries =
     map (\<lambda>(name, entry). entry\<lparr>idx := Some name\<rparr>) (enumerate 0 fileEntries)"

text \<open>
  What the loop leaves: in place of the name of a file object, the position that the loop
  assigned to it; in a link, its own position and its references; in an entry of the array,
  which has its position from \<open>sortAndIndexEntries\<close>, its references.
\<close>

definition indexedFile :: "nat list \<Rightarrow> EntryFile \<Rightarrow> EntryFile" where
  "indexedFile order entry = entry\<lparr>idx := map_option (assignedIdx order) (idx entry)\<rparr>"

definition indexedLink :: "nat list \<Rightarrow> nat \<Rightarrow> EntryLink \<Rightarrow> EntryLink" where
  "indexedLink order name link =
     link\<lparr>idx := Some (assignedIdx order name),
          content := (content link)
            \<lparr>referencedBy := map (indexedFile order) (referencedBy (content link))\<rparr>\<rparr>"

definition indexedEntry :: "nat list \<Rightarrow> Content Entry \<Rightarrow> Content Entry" where
  "indexedEntry order entry =
     (case content entry of
        FileContent file \<Rightarrow> entry
      | LinkContent link \<Rightarrow>
          entry\<lparr>content :=
            LinkContent (link\<lparr>referencedBy := map (indexedFile order) (referencedBy link)\<rparr>)\<rparr>)"

definition recomputeEntries ::
  "(Repo \<Rightarrow> 'i) \<Rightarrow> (jsstring list \<Rightarrow> jsstring list) \<Rightarrow>
   (jsstring \<Rightarrow> jsstring) \<Rightarrow> (jsstring \<Rightarrow> jsstring \<Rightarrow> int) \<Rightarrow>
   EntryFile list \<Rightarrow> EntryLink list \<Rightarrow> JsException + (EntryLink list \<times> Entries)"
where
  "recomputeEntries getRepoId normalizeLabels toLowerCase localeCompare fileEntries existingLinkEntries =
     (case recomputeLinkEntries getRepoId normalizeLabels (fileObjects fileEntries) existingLinkEntries of
        Inl exception \<Rightarrow> Inl exception
      | Inr linkEntries' \<Rightarrow>
          (let entries = map entryOfFile (fileObjects fileEntries) @ map entryOfLink linkEntries';
               order = sortedOrder (compareEntries toLowerCase localeCompare) entries
           in Inr (map (\<lambda>(k, link). indexedLink order (length fileEntries + k) link)
                     (enumerate 0 linkEntries'),
                   map (indexedEntry order) (sortAndIndexEntries toLowerCase localeCompare entries))))"

subsection \<open>Notions used to state the properties of the reconciliation\<close>

text \<open>The link targets of a file entry, and those of a list of file entries.\<close>

fun noteLinks :: "EntryFile \<Rightarrow> jsstring list" where
  "noteLinks entry = (case content entry of Note note \<Rightarrow> links note | Doc doc \<Rightarrow> [])"

definition referencedTargets :: "EntryFile list \<Rightarrow> jsstring list" where
  "referencedTargets fileEntries = concat (map noteLinks fileEntries)"

text \<open>
  What an existing link keeps through a reconciliation: everything but its references
  and its inherited labels.
\<close>

definition sameLink :: "EntryLink \<Rightarrow> EntryLink \<Rightarrow> bool" where
  "sameLink a b \<longleftrightarrow>
     title a = title b \<and> priority a = priority b \<and> key a = key b \<and> idx a = idx b \<and>
     target (content a) = target (content b) \<and>
     standaloneRepo (content a) = standaloneRepo (content b) \<and>
     ownLabels (content a) = ownLabels (content b)"

text \<open>
  The invariant of the two loops: an object sits in \<open>linkMap\<close> under its own target,
  which is no property name of \<open>Object.prototype\<close>; the pushed targets are distinct, are
  the keys of \<open>linkInserted\<close>, and are keys of \<open>linkMap\<close>.
\<close>

definition wfState :: "LinkState \<Rightarrow> bool" where
  "wfState st \<longleftrightarrow>
     (\<forall>t l. linkMap st t = Some l \<longrightarrow> target (content l) = t \<and> t \<notin> set objectPrototypeKeys) \<and>
     distinct (linkEntries st) \<and>
     set (linkEntries st) = dom (linkInserted st) \<and>
     dom (linkInserted st) \<subseteq> dom (linkMap st)"


definition initialState :: LinkState where
  "initialState = \<lparr>linkEntries = [], linkMap = Map.empty, linkInserted = Map.empty\<rparr>"

text \<open>The body of each of the two loops, as a function of the state.\<close>

definition existingLinkStep :: "EntryLink \<Rightarrow> LinkState \<Rightarrow> LinkState" where
  "existingLinkStep link0 st =
     (if \<not> inObject (linkMap st) (target (content link0))
      then
        (if standaloneRepo (content link0) \<noteq> None
         then st\<lparr>linkEntries := linkEntries st @ [target (content link0)],
                 linkInserted := (linkInserted st)(target (content link0) \<mapsto> True),
                 linkMap := (linkMap st)(target (content link0) \<mapsto> resetLink link0)\<rparr>
         else st\<lparr>linkMap := (linkMap st)(target (content link0) \<mapsto> resetLink link0)\<rparr>)
      else st)"

definition linkTargetStep ::
  "(Repo \<Rightarrow> 'i) \<Rightarrow> (jsstring list \<Rightarrow> jsstring list) \<Rightarrow> EntryFile \<Rightarrow> ContentNote \<Rightarrow>
   jsstring \<Rightarrow> LinkState \<Rightarrow> JsException + LinkState"
where
  "linkTargetStep getRepoId normalizeLabels entry note linkTarget st =
     (case linkMap st linkTarget of
        None \<Rightarrow>
          if linkTarget \<in> set objectPrototypeKeys then Inl TypeError
          else Inr (st\<lparr>linkEntries := linkEntries st @ [linkTarget],
                       linkInserted := (linkInserted st)(linkTarget \<mapsto> True),
                       linkMap := (linkMap st)(linkTarget \<mapsto> newLinkEntry entry note linkTarget)\<rparr>)
      | Some linkEntry0 \<Rightarrow>
          if inObject (linkInserted st) linkTarget
          then Inr (st\<lparr>linkMap := (linkMap st)
                         (linkTarget \<mapsto> addReference getRepoId normalizeLabels entry note linkEntry0)\<rparr>)
          else Inr (st\<lparr>linkMap := (linkMap st)
                         (linkTarget \<mapsto> addReference getRepoId normalizeLabels entry note linkEntry0),
                       linkEntries := linkEntries st @ [linkTarget],
                       linkInserted := (linkInserted st)(target (content linkEntry0) \<mapsto> True)\<rparr>))"

text \<open>
  The references to one target in a list of file entries, in the order of the loops and
  with repetitions, each as the note entry with its content.
\<close>

fun refsOf :: "jsstring \<Rightarrow> EntryFile list \<Rightarrow> (EntryFile \<times> ContentNote) list" where
  "refsOf t [] = []"
| "refsOf t (entry # rest) =
     (case content entry of
        Note note \<Rightarrow> replicate (count_list (links note) t) (entry, note)
      | Doc doc \<Rightarrow> []) @ refsOf t rest"

text \<open>A link entry after a list of references, and the entry for a target after all of them.\<close>

definition addRefs ::
  "(Repo \<Rightarrow> 'i) \<Rightarrow> (jsstring list \<Rightarrow> jsstring list) \<Rightarrow> EntryLink \<Rightarrow>
   (EntryFile \<times> ContentNote) list \<Rightarrow> EntryLink"
where
  "addRefs getRepoId normalizeLabels link rs =
     foldl (\<lambda>l (entry, note). addReference getRepoId normalizeLabels entry note l) link rs"

definition finalLink ::
  "(Repo \<Rightarrow> 'i) \<Rightarrow> (jsstring list \<Rightarrow> jsstring list) \<Rightarrow> EntryLink option \<Rightarrow> jsstring \<Rightarrow>
   (EntryFile \<times> ContentNote) list \<Rightarrow> EntryLink option"
where
  "finalLink getRepoId normalizeLabels start t rs =
     (case start of
        Some link \<Rightarrow> Some (addRefs getRepoId normalizeLabels link rs)
      | None \<Rightarrow>
          (case rs of
             [] \<Rightarrow> None
           | (entry, note) # rs' \<Rightarrow>
               Some (addRefs getRepoId normalizeLabels (newLinkEntry entry note t) rs')))"

text \<open>The targets that the second loop pushes: those not pushed before, at their first occurrence.\<close>

fun newTargets :: "jsstring set \<Rightarrow> jsstring list \<Rightarrow> jsstring list" where
  "newTargets seen [] = []"
| "newTargets seen (t # ts) =
     (if t \<in> seen then newTargets seen ts else t # newTargets (insert t seen) ts)"

text \<open>
  The state after the first loop: every link is in its reset form, and the pushed ones
  are the standalone ones.
\<close>

definition resetState :: "LinkState \<Rightarrow> bool" where
  "resetState st \<longleftrightarrow>
     (\<forall>t l. linkMap st t = Some l \<longrightarrow>
        resetLink l = l \<and> ((standaloneRepo (content l) \<noteq> None) = (t \<in> set (linkEntries st))))"

text \<open>
  Entries that differ in their \<open>idx\<close> only, and links that differ only in the \<open>idx\<close>
  of the file entries that they reference.
\<close>

definition sameButIdx :: "('c, 'm) Entry_scheme \<Rightarrow> ('c, 'm) Entry_scheme \<Rightarrow> bool" where
  "sameButIdx a b \<longleftrightarrow> a\<lparr>idx := None\<rparr> = b\<lparr>idx := None\<rparr>"

definition sameButFileIdx :: "EntryLink \<Rightarrow> EntryLink \<Rightarrow> bool" where
  "sameButFileIdx l l' \<longleftrightarrow>
     l'\<lparr>content := (content l')\<lparr>referencedBy := referencedBy (content l)\<rparr>\<rparr> = l \<and>
     list_all2 sameButIdx (referencedBy (content l)) (referencedBy (content l'))"
section \<open>Entry extraction and loading (utils/entry\_utils, octokit)\<close>

subsection \<open>Paths of meta files\<close>

definition NOTEMARKS_FOLDER :: jsstring where
  "NOTEMARKS_FOLDER = js ''.notemarks''"

definition getAssociatedMetaPath :: "jsstring \<Rightarrow> jsstring" where
  "getAssociatedMetaPath p = NOTEMARKS_FOLDER @ js ''/'' @ p @ js ''.yaml''"

subsection \<open>File maps\<close>

text \<open>
  Modelled from the spec: the classes \<open>FileMap\<close> and \<open>MultiRepoFileMap\<close> of \<open>filemap\<close>
  are not among the sources. The spec describes a file map as a mapping from path (unique key)
  to file with \<open>get\<close>, \<open>setContent\<close> (upsert, replacing a fetch error or absence),
  \<open>clone\<close> and \<open>forEach\<close>, and the multi-repo file map as a mapping from repo identity to
  file map. Both are lists in insertion order; \<open>clone\<close> is the identity on values.
\<close>

type_synonym FileMap = "File list"

definition fileMapGet :: "FileMap \<Rightarrow> jsstring \<Rightarrow> File option" where
  "fileMapGet fileMap p = find (\<lambda>file. File.path file = p) fileMap"

definition fileMapSet :: "FileMap \<Rightarrow> File \<Rightarrow> FileMap" where
  "fileMapSet fileMap file =
     (if list_ex (\<lambda>f. File.path f = File.path file) fileMap
      then map (\<lambda>f. if File.path f = File.path file then file else f) fileMap
      else fileMap @ [file])"

definition fileMapSetContent :: "FileMap \<Rightarrow> jsstring \<Rightarrow> jsstring \<Rightarrow> FileMap" where
  "fileMapSetContent fileMap p newContent =
     (case fileMapGet fileMap p of
        Some file \<Rightarrow> fileMapSet fileMap (file\<lparr>File.content := Some newContent, error := None\<rparr>)
      | None \<Rightarrow>
          fileMap @ [\<lparr>File.path = p, sha = None, rawUrl = None, content = Some newContent,
                      error = None\<rparr>])"

definition convertFilesToFileMap :: "File list \<Rightarrow> FileMap" where
  "convertFilesToFileMap files = foldl fileMapSet [] files"

type_synonym MultiRepoFileMap = "(Repo \<times> FileMap) list"

definition multiRepoSet :: "(Repo \<Rightarrow> 'i) \<Rightarrow> (Repo \<times> 'v) list \<Rightarrow> Repo \<Rightarrow> 'v \<Rightarrow> (Repo \<times> 'v) list" where
  "multiRepoSet getRepoId allMaps r v =
     (if list_ex (\<lambda>(r', v'). getRepoId r' = getRepoId r) allMaps
      then map (\<lambda>(r', v'). if getRepoId r' = getRepoId r then (r', v) else (r', v')) allMaps
      else allMaps @ [(r, v)])"

text \<open>\<open>allFileMapsEdit.get(repo)?.data.setContent(path, content)\<close>: nothing happens for an unknown repo.\<close>

definition multiRepoSetContent ::
  "(Repo \<Rightarrow> 'i) \<Rightarrow> MultiRepoFileMap \<Rightarrow> Repo \<Rightarrow> jsstring \<Rightarrow> jsstring \<Rightarrow> MultiRepoFileMap" where
  "multiRepoSetContent getRepoId allMaps r p newContent =
     map (\<lambda>(r', fileMap).
            if getRepoId r' = getRepoId r then (r', fileMapSetContent fileMap p newContent)
            else (r', fileMap)) allMaps"

subsection \<open>Collaborators that are not among the sources\<close>

text \<open>
  The functions of \<open>path_utils\<close>, \<open>markdown_utils\<close>, \<open>io\<close> and \<open>filemap\<close> that the
  extraction calls and that are not among the sources are parameters, collected in one record.
  \<open>createNewMetaData\<close> reads the clock; its result is a parameter as well. A failed parse is
  \<open>None\<close>.
\<close>

record Collaborators =
  isNotemarksFile :: "jsstring \<Rightarrow> bool"
  NOTEMARKS_LINK_DB_PATH :: jsstring
  getFileKind :: "jsstring \<Rightarrow> EntryKind"
  splitLocationTitleExtension :: "jsstring \<Rightarrow> jsstring \<times> jsstring \<times> jsstring"
  getPath :: "EntryFile \<Rightarrow> jsstring"
  processMarkdownText :: "jsstring \<Rightarrow> jsstring \<times> jsstring list"
  parseMetaData :: "jsstring \<Rightarrow> MetaData option"
  createNewMetaData :: MetaData
  serializeMetaData :: "MetaData \<Rightarrow> jsstring"
  isFileInGit :: "File \<Rightarrow> bool"

text \<open>
  Modelled from the spec: the type guard \<open>isFileFetched\<close> of \<open>filemap\<close> is not among the
  sources; after it the code reads \<open>file.content\<close> as a string, and the spec calls a file
  fetched when its content is set.
\<close>

definition isFileFetched :: "File \<Rightarrow> bool" where
  "isFileFetched file \<longleftrightarrow> File.content file \<noteq> None"

subsection \<open>constructFileEntry\<close>

text \<open>\<open>recomputeKey\<close> on a file entry (its first branch).\<close>

definition recomputeKeyFile :: "Collaborators \<Rightarrow> EntryFile \<Rightarrow> EntryFile" where
  "recomputeKeyFile env entry =
     entry\<lparr>key :=
       Some (Repo.key (case content entry of Note note \<Rightarrow> repo note | Doc doc \<Rightarrow> repo doc)
             @ js '':'' @ getPath env entry)\<rparr>"

definition constructFileEntry :: "Collaborators \<Rightarrow> Repo \<Rightarrow> File \<Rightarrow> MetaData \<Rightarrow> EntryFile option" where
  "constructFileEntry env r file metaData =
     (let fileKind = getFileKind env (File.path file);
          (location', title', extension') = splitLocationTitleExtension env (File.path file)
      in case (if fileKind = NoteMarkdown \<and> isFileFetched file
               then (case File.content file of
                       Some fileText \<Rightarrow>
                         (let (html', links') = processMarkdownText env fileText
                          in Some (Note \<lparr>repo = r, location = location', extension = extension',
                                          timeCreated = MetaData.timeCreated metaData,
                                          timeUpdated = MetaData.timeUpdated metaData,
                                          rawUrl = File.rawUrl file,
                                          text' = fileText, html = html', links = links'\<rparr>))
                     | None \<Rightarrow> None)
               else if fileKind = Document \<and> isFileInGit env file
               then Some (Doc \<lparr>repo = r, location = location', extension = extension',
                               timeCreated = MetaData.timeCreated metaData,
                               timeUpdated = MetaData.timeUpdated metaData,
                               rawUrl = File.rawUrl file\<rparr>)
               else None) of
           None \<Rightarrow> None
         | Some content' \<Rightarrow>
             Some (recomputeKeyFile env
                     \<lparr>title = title', priority = 0, labels = MetaData.labels metaData,
                      content = content', key = None, idx = None\<rparr>))"

subsection \<open>extractFileEntriesAndUpdateFileMap\<close>

text \<open>
  The body of the inner \<open>forEach\<close> for one file of one repo, on the two variables it
  changes: the array \<open>fileEntries\<close> and the cloned maps \<open>allFileMapsEdit\<close>.
\<close>

definition extractFile ::
  "Collaborators \<Rightarrow> (Repo \<Rightarrow> 'i) \<Rightarrow> Repo \<Rightarrow> FileMap \<Rightarrow> File \<Rightarrow>
   EntryFile list \<times> MultiRepoFileMap \<Rightarrow> EntryFile list \<times> MultiRepoFileMap"
where
  "extractFile env getRepoId r fileMap file acc =
     (let (fileEntries, allFileMapsEdit) = acc
      in if \<not> isNotemarksFile env (File.path file)
         then
           (let associatedMetaPath = getAssociatedMetaPath (File.path file);
                associatedMetaFile = fileMapGet fileMap associatedMetaPath;
                (fileEntries1, createMetaDataFromScratch) =
                  (case associatedMetaFile of
                     Some metaFile \<Rightarrow>
                       (case File.content metaFile of
                          Some metaText \<Rightarrow>
                            (case parseMetaData env metaText of
                               Some metaData \<Rightarrow>
                                 (case constructFileEntry env r file metaData of
                                    Some entry \<Rightarrow> (fileEntries @ [entry], False)
                                  | None \<Rightarrow> (fileEntries, False))
                             | None \<Rightarrow> (fileEntries, True))
                        | None \<Rightarrow>
                            if File.error metaFile \<noteq> None then (fileEntries, False)
                            else (fileEntries, True))
                   | None \<Rightarrow> (fileEntries, True))
            in if createMetaDataFromScratch
               then
                 (let newMetaData = createNewMetaData env;
                      newMetaDataContent = serializeMetaData env newMetaData
                  in case constructFileEntry env r file newMetaData of
                       Some entry \<Rightarrow>
                         (fileEntries1 @ [entry],
                          multiRepoSetContent getRepoId allFileMapsEdit r associatedMetaPath
                            newMetaDataContent)
                     | None \<Rightarrow> (fileEntries1, allFileMapsEdit))
               else (fileEntries1, allFileMapsEdit))
         else (fileEntries, allFileMapsEdit))"

definition extractFileEntriesAndUpdateFileMap ::
  "Collaborators \<Rightarrow> (Repo \<Rightarrow> 'i) \<Rightarrow> MultiRepoFileMap \<Rightarrow> EntryFile list \<times> MultiRepoFileMap" where
  "extractFileEntriesAndUpdateFileMap env getRepoId allFileMapsOrig =
     foldl (\<lambda>acc (r, fileMap). foldl (\<lambda>acc' file. extractFile env getRepoId r fileMap file acc') acc fileMap)
       ([], allFileMapsOrig) allFileMapsOrig"

text \<open>
  A tracked path outside the reserved folder whose meta file is present, without content and
  with a fetch error.
\<close>

definition metaFetchFailed :: "Collaborators \<Rightarrow> FileMap \<Rightarrow> File \<Rightarrow> bool" where
  "metaFetchFailed env fileMap file \<longleftrightarrow>
     \<not> isNotemarksFile env (File.path file) \<and>
     (case fileMapGet fileMap (getAssociatedMetaPath (File.path file)) of
        None \<Rightarrow> False
      | Some metaFile \<Rightarrow> File.content metaFile = None \<and> File.error metaFile \<noteq> None)"

subsection \<open>loadEntries\<close>

text \<open>
  The loop of \<open>loadEntries\<close> over the repos. \<open>downloadFiles\<close> talks to the remote; its
  result for each repo is a parameter. The variables \<open>allEntries\<close> and \<open>allErrors\<close> of the
  source are created empty, logged and never written or returned; \<open>stagedChanges\<close> is
  returned as it was created, empty.
\<close>

definition loadRepo ::
  "Collaborators \<Rightarrow> (Repo \<Rightarrow> 'i) \<Rightarrow> (Repo \<Rightarrow> File list) \<Rightarrow>
   (Repo \<times> jsstring) list \<times> MultiRepoFileMap \<Rightarrow> Repo \<Rightarrow> (Repo \<times> jsstring) list \<times> MultiRepoFileMap"
where
  "loadRepo env getRepoId downloadFiles acc r =
     (let (allLinkDBs, allFileMaps) = acc;
          files = downloadFiles r;
          fileMap = convertFilesToFileMap files;
          allFileMaps1 = multiRepoSet getRepoId allFileMaps r fileMap
      in case fileMapGet fileMap (NOTEMARKS_LINK_DB_PATH env) of
           Some fileLinkDB \<Rightarrow>
             (case File.content fileLinkDB of
                Some linkDBContent \<Rightarrow>
                  (multiRepoSet getRepoId allLinkDBs r linkDBContent, allFileMaps1)
              | None \<Rightarrow> (allLinkDBs, allFileMaps1))
         | None \<Rightarrow> (allLinkDBs, allFileMaps1))"

definition loadEntries ::
  "Collaborators \<Rightarrow> (Repo \<Rightarrow> 'i) \<Rightarrow> (Repo \<Rightarrow> File list) \<Rightarrow> Repo list \<Rightarrow>
   EntryFile list \<times> (Repo \<times> jsstring) list \<times> (Repo \<times> GitOp list) list"
where
  "loadEntries env getRepoId downloadFiles repos =
     (let (allLinkDBs, allFileMaps) = foldl (loadRepo env getRepoId downloadFiles) ([], []) repos;
          stagedChanges = [];
          (fileEntries, allFileMapsPatched) =
            extractFileEntriesAndUpdateFileMap env getRepoId allFileMaps
      in (fileEntries, allLinkDBs, stagedChanges))"

subsection \<open>Example data\<close>

text \<open>
  Modelled from the spec: \<open>getRepoId\<close> is not among the sources; the spec describes a
  repo's identity as derived from owner and name.
\<close>

definition getRepoId :: "Repo \<Rightarrow> jsstring" where
  "getRepoId r = userName r @ js ''/'' @ repoName r"

text \<open>
  Modelled from the spec: \<open>label_utils.normalizeLabels\<close> is not among the sources; the spec
  describes the merged label set as deduplicated, case-insensitive-normalized and sorted.
  Here: duplicates removed, then sorted by the comparison of the lower-cased labels.
\<close>

definition normalizeLabels ::
  "(jsstring \<Rightarrow> jsstring) \<Rightarrow> (jsstring \<Rightarrow> jsstring \<Rightarrow> int) \<Rightarrow> jsstring list \<Rightarrow> jsstring list" where
  "normalizeLabels toLowerCase localeCompare labelList =
     arraySort (\<lambda>a b. localeCompare (toLowerCase a) (toLowerCase b)) (remdups labelList)"

definition exampleRepoOf :: "string \<Rightarrow> Repo" where
  "exampleRepoOf name =
     \<lparr>Repo.key = js ''u/'' @ js name, userName = js ''u'', repoName = js name, token = js ''secret''\<rparr>"

definition exampleNote :: "string \<Rightarrow> string \<Rightarrow> string \<Rightarrow> string list \<Rightarrow> string list \<Rightarrow> EntryFile" where
  "exampleNote repoName' location' title' labels' links' =
     \<lparr>title = js title', priority = 0, labels = map js labels',
      content = Note \<lparr>repo = exampleRepoOf repoName', location = js location', extension = js ''md'',
                      timeCreated = 0, timeUpdated = 0, rawUrl = None,
                      text' = js ''text'', html = js ''html'', links = map js links'\<rparr>,
      key = Some (js ''u/'' @ js repoName' @ js '':'' @ js location' @ js ''/'' @ js title' @ js ''.md''),
      idx = None\<rparr>"

definition exampleDocument :: "string \<Rightarrow> string \<Rightarrow> string \<Rightarrow> EntryFile" where
  "exampleDocument repoName' location' title' =
     \<lparr>title = js title', priority = 0, labels = [],
      content = Doc \<lparr>repo = exampleRepoOf repoName', location = js location', extension = js ''pdf'',
                     timeCreated = 0, timeUpdated = 0, rawUrl = None\<rparr>,
      key = Some (js ''u/'' @ js repoName' @ js '':'' @ js location' @ js ''/'' @ js title' @ js ''.pdf''),
      idx = None\<rparr>"

definition exampleLink :: "string \<Rightarrow> string \<Rightarrow> bool \<Rightarrow> string list \<Rightarrow> EntryLink" where
  "exampleLink title' target' standalone ownLabels' =
     \<lparr>title = js title', priority = 0, labels = map js ownLabels',
      content = \<lparr>target = js target', referencedBy = [],
                 standaloneRepo = (if standalone then Some (exampleRepoOf ''r'') else None),
                 refRepos = [], refLocations = [], ownLabels = map js ownLabels'\<rparr>,
      key = Some (js ''__link_'' @ js target'), idx = None\<rparr>"

text \<open>
  One choice of the collaborators, to run the extraction and the load on examples: the
  files of the reserved folder are the paths that start with its name, every other path is a
  note titled by its path, whose text has no links, and meta data never parses.
\<close>

definition exampleCollaborators :: Collaborators where
  "exampleCollaborators =
     \<lparr>isNotemarksFile = (\<lambda>p. take (length NOTEMARKS_FOLDER) p = NOTEMARKS_FOLDER),
      NOTEMARKS_LINK_DB_PATH = NOTEMARKS_FOLDER @ js ''/link_db.yaml'',
      getFileKind = (\<lambda>p. NoteMarkdown),
      splitLocationTitleExtension = (\<lambda>p. ([], p, js ''md'')),
      getPath = (\<lambda>entry. title entry),
      processMarkdownText = (\<lambda>fileText. (fileText, [])),
      parseMetaData = (\<lambda>metaText. None),
      createNewMetaData = \<lparr>MetaData.labels = [], timeCreated = 0, timeUpdated = 0\<rparr>,
      serializeMetaData = (\<lambda>metaData. js ''labels: []''),
      isFileInGit = (\<lambda>file. File.sha file \<noteq> None)\<rparr>"

text \<open>A fetched note, and its meta file in three states: absent, fetched, and failed to fetch.\<close>

definition exampleNoteFile :: File where
  "exampleNoteFile =
     \<lparr>File.path = js ''a.md'', sha = Some (js ''s1''), rawUrl = Some (js ''raw/a.md''),
      content = Some (js ''text''), error = None\<rparr>"

definition exampleMetaFileFetched :: File where
  "exampleMetaFileFetched =
     \<lparr>File.path = js ''.notemarks/a.md.yaml'', sha = Some (js ''s2''),
      rawUrl = Some (js ''raw/.notemarks/a.md.yaml''), content = Some (js ''garbled''),
      error = None\<rparr>"

definition exampleMetaFileFailed :: File where
  "exampleMetaFileFailed =
     \<lparr>File.path = js ''.notemarks/a.md.yaml'', sha = Some (js ''s2''),
      rawUrl = Some (js ''raw/.notemarks/a.md.yaml''), content = None,
      error = Some \<lparr>msg = js ''Failure during fetching file from GitHub.'',
                     originalError = Some (Error (js ''HttpError''))\<rparr>\<rparr>"

section \<open>Properties\<close>

subsection \<open>Path codec\<close>

lemma chars_distinct:
  "SOLIDUS \<noteq> BIG_SOLIDUS" "SOLIDUS \<noteq> BIG_REVERSE_SOLIDUS" "BIG_SOLIDUS \<noteq> BIG_REVERSE_SOLIDUS"
  "FULL_STOP \<noteq> SOLIDUS" "FULL_STOP \<noteq> BIG_SOLIDUS" "FULL_STOP \<noteq> BIG_REVERSE_SOLIDUS"
  "BIG_SOLIDUS \<noteq> SOLIDUS" "BIG_REVERSE_SOLIDUS \<noteq> SOLIDUS" "BIG_REVERSE_SOLIDUS \<noteq> BIG_SOLIDUS"
  "SOLIDUS \<noteq> FULL_STOP" "BIG_SOLIDUS \<noteq> FULL_STOP" "BIG_REVERSE_SOLIDUS \<noteq> FULL_STOP"
  by (simp_all add: SOLIDUS_def BIG_SOLIDUS_def BIG_REVERSE_SOLIDUS_def FULL_STOP_def)

lemma replaceAllChar_append:
  "replaceAllChar c r (xs @ ys) = replaceAllChar c r xs @ replaceAllChar c r ys"
  by (induction xs) simp_all

lemma escapeTitle_concat: "escapeTitle s = concat (map escapeChar s)"
  unfolding escapeTitle_def
  by (induction s) (simp_all add: escapeChar_def chars_distinct replaceAllChar_append)

lemma unescapeLoop_escaped:
  "unescapeLoop (concat (map escapeChar s) @ rest) acc False = unescapeLoop rest (acc @ s) False"
  by (induction s arbitrary: acc) (simp_all add: escapeChar_def chars_distinct)

lemma unescape_escape: "unescapeTitle (escapeTitle s) = s"
  using unescapeLoop_escaped [of s "[]" "[]"]
  by (simp add: unescapeTitle_def escapeTitle_concat)

lemma lastIndexOfFrom_absent:
  "c \<notin> set s \<Longrightarrow> lastIndexOfFrom c s i found = found"
  by (induction s arbitrary: i found) auto

lemma lastIndexOfFrom_last:
  "c \<notin> set e \<Longrightarrow> lastIndexOfFrom c (a @ c # e) i found = int (i + length a)"
  by (induction a arbitrary: i found) (simp_all add: lastIndexOfFrom_absent)

lemma escape_no_dot: "FULL_STOP \<notin> set t \<Longrightarrow> FULL_STOP \<notin> set (escapeTitle t)"
  by (induction t) (auto simp: escapeTitle_concat escapeChar_def chars_distinct)

lemma unescapeLoop_acc:
  "unescapeLoop s acc b = acc @ unescapeLoop s [] b"
proof (induction s arbitrary: acc b)
  case Nil
  show ?case by simp
next
  case (Cons c s)
  show ?case
    using Cons [of "acc @ [c]" False] Cons [of "[c]" False]
          Cons [of "acc @ [SOLIDUS]" False] Cons [of "[SOLIDUS]" False] Cons [of acc True]
    by simp
qed

lemma escape_append: "escapeTitle (a @ b) = escapeTitle a @ escapeTitle b"
  by (simp add: escapeTitle_concat)

lemma escape_dot: "escapeTitle (FULL_STOP # b) = FULL_STOP # escapeTitle b"
  by (simp add: escapeTitle_concat escapeChar_def chars_distinct)

lemma filenameToTitle_last_dot:
  assumes "FULL_STOP \<notin> set b"
  shows "filenameToTitle (p @ FULL_STOP # b) = unescapeTitle p"
proof -
  have "lastIndexOf (p @ FULL_STOP # b) FULL_STOP = int (length p)"
    using lastIndexOfFrom_last [OF assms, of p 0 "- 1"] by (simp add: lastIndexOf_def)
  then show ?thesis
    by (simp add: filenameToTitle_def Let_def)
qed

lemma filenameToTitle_no_dot:
  "FULL_STOP \<notin> set s \<Longrightarrow> filenameToTitle s = unescapeTitle s"
  by (simp add: filenameToTitle_def lastIndexOf_def Let_def lastIndexOfFrom_absent)

lemma unescape_escape_dot:
  "unescapeTitle (escapeTitle t @ FULL_STOP # a) = t @ FULL_STOP # unescapeTitle a"
proof -
  have "unescapeTitle (escapeTitle t @ FULL_STOP # a) = unescapeLoop (FULL_STOP # a) t False"
    using unescapeLoop_escaped [of t "FULL_STOP # a" "[]"]
    by (simp add: unescapeTitle_def escapeTitle_concat)
  also have "\<dots> = t @ FULL_STOP # unescapeTitle a"
    using unescapeLoop_acc [of a "t @ [FULL_STOP]" False]
    by (simp add: chars_distinct unescapeTitle_def)
  finally show ?thesis .
qed

text \<open>
  C1 (as amended). The round trip \<open>filenameToTitle (titleToFilename t ext) = t\<close> holds
  exactly when the dot that \<open>filenameToTitle\<close> cuts at is the one \<open>titleToFilename\<close>
  added: with a non-empty extension, when the extension contains no full stop; with an absent
  or empty extension, when the title contains none. Titles containing a solidus, a reverse solidus,
  U+29F8 or U+29F9 are covered.
\<close>

theorem filenameToTitle_titleToFilename_iff:
  "filenameToTitle (titleToFilename t ext) = t \<longleftrightarrow>
   (case ext of None \<Rightarrow> FULL_STOP \<notin> set t
    | Some e \<Rightarrow> if e = [] then FULL_STOP \<notin> set t else FULL_STOP \<notin> set e)"
proof -
  have noext: "filenameToTitle (escapeTitle t) = t \<longleftrightarrow> FULL_STOP \<notin> set t"
  proof (cases "FULL_STOP \<in> set t")
    case True
    from split_list_last [OF True]
    obtain a b where t: "t = a @ FULL_STOP # b" and b: "FULL_STOP \<notin> set b"
      by auto
    have r: "filenameToTitle (escapeTitle t) = a"
      using filenameToTitle_last_dot [OF escape_no_dot [OF b], of "escapeTitle a"]
      by (simp add: t escape_append escape_dot unescape_escape)
    have "length t = length a + 1 + length b"
      by (simp add: t)
    then have "a \<noteq> t"
      by auto
    then show ?thesis
      by (simp only: r True not_True_eq_False simp_thms)
  next
    case False
    then show ?thesis
      by (simp add: filenameToTitle_no_dot escape_no_dot unescape_escape)
  qed
  have withext: "filenameToTitle (escapeTitle t @ FULL_STOP # e) = t \<longleftrightarrow> FULL_STOP \<notin> set e"
    for e
  proof (cases "FULL_STOP \<in> set e")
    case True
    from split_list_last [OF True]
    obtain a b where e: "e = a @ FULL_STOP # b" and b: "FULL_STOP \<notin> set b"
      by auto
    have "filenameToTitle (escapeTitle t @ FULL_STOP # e) = t @ FULL_STOP # unescapeTitle a"
      using filenameToTitle_last_dot [OF b, of "escapeTitle t @ FULL_STOP # a"]
      by (simp add: e unescape_escape_dot)
    then show ?thesis using True by simp
  next
    case False
    then show ?thesis
      by (simp add: filenameToTitle_last_dot unescape_escape)
  qed
  show ?thesis
  proof (cases ext)
    case None
    then show ?thesis using noext by (simp add: titleToFilename_def)
  next
    case (Some e)
    then show ?thesis using noext withext [of e] by (simp add: titleToFilename_def)
  qed
qed

theorem filenameToTitle_titleToFilename_iff_witness:
  "filenameToTitle
     (titleToFilename [0x61, SOLIDUS, BIG_SOLIDUS, 0x5C, BIG_REVERSE_SOLIDUS, FULL_STOP, 0x62]
        (Some (js ''md'')))
   = [0x61, SOLIDUS, BIG_SOLIDUS, 0x5C, BIG_REVERSE_SOLIDUS, FULL_STOP, 0x62]"
proof -
  have "js ''md'' \<noteq> []"
    by (simp add: js_def)
  moreover have "FULL_STOP \<notin> set (js ''md'')"
    by (simp add: js_def FULL_STOP_def)
  ultimately show ?thesis
    using filenameToTitle_titleToFilename_iff
      [of "[0x61, SOLIDUS, BIG_SOLIDUS, 0x5C, BIG_REVERSE_SOLIDUS, FULL_STOP, 0x62]"
          "Some (js ''md'')"]
    by simp
qed

text \<open>
  C1 as stated fails: without an extension, the title \<open>a.b\<close> is stored as \<open>a.b\<close> and
  read back as \<open>a\<close>.
\<close>

theorem roundtrip_fails_without_extension:
  "filenameToTitle (titleToFilename (js ''a.b'') None) \<noteq> js ''a.b''"
  by (simp add: filenameToTitle_def titleToFilename_def lastIndexOf_def Let_def js_def
      escapeTitle_def unescapeTitle_def SOLIDUS_def BIG_SOLIDUS_def BIG_REVERSE_SOLIDUS_def
      FULL_STOP_def)

subsection \<open>Tree merge\<close>

lemma scanOps_keep:
  "fst (scanOps ops p k d) = (k \<and> (\<forall>op \<in> set ops. \<not> targetsPath op p))"
  by (induction ops p k d rule: scanOps.induct) auto

lemma scanOps_dest_none:
  "\<forall>t. Move p t \<notin> set ops \<Longrightarrow> \<forall>op \<in> set ops. \<not> targetsPath op p \<Longrightarrow> snd (scanOps ops p k d) = d"
  by (induction ops p k d rule: scanOps.induct) auto

lemma scanOps_dest_last:
  "\<forall>op \<in> set (ops1 @ ops2). \<not> targetsPath op p \<Longrightarrow> \<forall>t. Move p t \<notin> set ops2 \<Longrightarrow>
   snd (scanOps (ops1 @ Move p q # ops2) p k d) = q"
  by (induction ops1 p k d rule: scanOps.induct) (auto simp: scanOps_dest_none)

lemma scanOps_dest_cases:
  "snd (scanOps ops p k d) = d \<or> (\<exists>f. Move f (snd (scanOps ops p k d)) \<in> set ops)"
  by (induction ops p k d rule: scanOps.induct) auto

lemma mergeExisting_concat:
  "mergeExisting ops entries newTree = newTree @ concat (map (keptEntries ops) entries)"
  by (induction entries arbitrary: newTree) (auto simp: keptEntries_def split: prod.splits)

lemma mergeWrites_concat:
  "mergeWrites ops newTree = newTree @ concat (map writtenEntries ops)"
  by (induction ops newTree rule: mergeWrites.induct) auto

lemma applyOps_concat:
  "applyOps ops oldTree = concat (map (keptEntries ops) (tree oldTree)) @ concat (map writtenEntries ops)"
  by (simp add: applyOps_def mergeExisting_concat mergeWrites_concat)

lemma in_applyOps:
  "x \<in> set (applyOps ops oldTree) \<longleftrightarrow>
     (\<exists>e \<in> set (tree oldTree). x \<in> set (keptEntries ops e)) \<or> (\<exists>op \<in> set ops. x \<in> set (writtenEntries op))"
  by (auto simp: applyOps_concat)

lemma written_type: "x \<in> set (writtenEntries op) \<Longrightarrow> type x = Some (js ''blob'')"
  by (cases op) auto

lemma written_path: "x \<in> set (writtenEntries op) \<Longrightarrow> \<exists>c. op = Write (the (path x)) c"
  by (cases op) auto

lemma tree_ne_blob: "js ''blob'' \<noteq> js ''tree''"
  by (simp add: js_def)

text \<open>
  C2 (as amended). For every op list and old tree, the merged tree has no entry of type
  \<open>tree\<close>; and it has no entry for a path that a delete op targets, provided no write op
  has that path and no move op has it as destination. For the old tree with the directory node
  \<open>docs\<close> and the file \<open>docs/a.md\<close> and the single op \<open>delete(docs/a.md)\<close>, the
  merged tree is empty.
\<close>

theorem applyOps_no_tree_no_deleted:
  "(\<forall>x \<in> set (applyOps ops oldTree). type x \<noteq> Some (js ''tree'')) \<and>
   (\<forall>p. Remove p \<in> set ops \<and> (\<forall>c. Write p c \<notin> set ops) \<and> (\<forall>f. Move f p \<notin> set ops) \<longrightarrow>
        (\<forall>x \<in> set (applyOps ops oldTree). path x \<noteq> Some p)) \<and>
   applyOps [Remove (js ''docs/a.md'')]
     \<lparr>tree = [\<lparr>TreeEntry.path = js ''docs'', mode = m1, type = js ''tree'', sha = s1\<rparr>,
               \<lparr>TreeEntry.path = js ''docs/a.md'', mode = m2, type = t2, sha = s2\<rparr>],
      truncated = False\<rparr> = []"
proof (intro conjI ballI allI impI)
  fix x assume "x \<in> set (applyOps ops oldTree)"
  then show "type x \<noteq> Some (js ''tree'')"
    using tree_ne_blob by (auto simp: in_applyOps keptEntries_def dest: written_type split: if_splits)
next
  fix p x
  assume h: "Remove p \<in> set ops \<and> (\<forall>c. Write p c \<notin> set ops) \<and> (\<forall>f. Move f p \<notin> set ops)"
    and x: "x \<in> set (applyOps ops oldTree)"
  show "path x \<noteq> Some p"
  proof
    assume px: "path x = Some p"
    from x consider e where "e \<in> set (tree oldTree)" "x \<in> set (keptEntries ops e)"
      | op where "op \<in> set ops" "x \<in> set (writtenEntries op)"
      by (auto simp: in_applyOps)
    then show False
    proof cases
      case 1
      let ?r = "scanOps ops (TreeEntry.path e) True (TreeEntry.path e)"
      from 1 have k: "fst ?r" and d: "snd ?r = p"
        using px by (auto simp: keptEntries_def split: if_splits)
      from scanOps_dest_cases [of ops "TreeEntry.path e" True "TreeEntry.path e"] d h
      have "TreeEntry.path e = p" by auto
      with k h show False
        by (auto simp: scanOps_keep)
    next
      case 2
      then show False using written_path [of x op] px h by auto
    qed
  qed
next
  show "applyOps [Remove (js ''docs/a.md'')]
     \<lparr>tree = [\<lparr>TreeEntry.path = js ''docs'', mode = m1, type = js ''tree'', sha = s1\<rparr>,
               \<lparr>TreeEntry.path = js ''docs/a.md'', mode = m2, type = t2, sha = s2\<rparr>],
      truncated = False\<rparr> = []"
    by (simp add: applyOps_def)
qed

theorem applyOps_no_tree_no_deleted_witness:
  "Remove (js ''b'') \<in> set [Remove (js ''b''), Move (js ''a'') (js ''c'')] \<and>
   map path
     (applyOps [Remove (js ''b''), Move (js ''a'') (js ''c'')]
        \<lparr>tree = [\<lparr>TreeEntry.path = js ''a'', mode = js ''100644'', type = js ''blob'', sha = js ''s1''\<rparr>,
                  \<lparr>TreeEntry.path = js ''b'', mode = js ''100644'', type = js ''blob'', sha = js ''s2''\<rparr>,
                  \<lparr>TreeEntry.path = js ''d'', mode = js ''040000'', type = js ''tree'', sha = js ''s3''\<rparr>],
          truncated = False\<rparr>)
     = [Some (js ''c'')] \<and>
   map type
     (applyOps [Remove (js ''b''), Move (js ''a'') (js ''c'')]
        \<lparr>tree = [\<lparr>TreeEntry.path = js ''a'', mode = js ''100644'', type = js ''blob'', sha = js ''s1''\<rparr>,
                  \<lparr>TreeEntry.path = js ''b'', mode = js ''100644'', type = js ''blob'', sha = js ''s2''\<rparr>,
                  \<lparr>TreeEntry.path = js ''d'', mode = js ''040000'', type = js ''tree'', sha = js ''s3''\<rparr>],
          truncated = False\<rparr>)
     = [Some (js ''blob'')]"
  using applyOps_no_tree_no_deleted
    [of "[Remove (js ''b''), Move (js ''a'') (js ''c'')]"
        "\<lparr>tree = [\<lparr>TreeEntry.path = js ''a'', mode = js ''100644'', type = js ''blob'', sha = js ''s1''\<rparr>,
                  \<lparr>TreeEntry.path = js ''b'', mode = js ''100644'', type = js ''blob'', sha = js ''s2''\<rparr>,
                  \<lparr>TreeEntry.path = js ''d'', mode = js ''040000'', type = js ''tree'', sha = js ''s3''\<rparr>],
          truncated = False\<rparr>"]
  by (simp add: applyOps_def js_def)

text \<open>
  C2 as stated fails: a delete op followed by a write op of the same path leaves an entry for
  that path in the merged tree.
\<close>

theorem applyOps_delete_then_write_has_entry:
  "\<exists>x \<in> set (applyOps [Remove (js ''a.md''), Write (js ''a.md'') (js ''x'')] \<lparr>tree = [], truncated = False\<rparr>).
     path x = Some (js ''a.md'')"
  by (simp add: applyOps_def)

text \<open>
  C4 (as amended). An old entry that is not a \<open>tree\<close> node, whose path is the source of
  a move op and is targeted by no write or delete op anywhere in the op list, is in the merged
  tree with its path rewritten to the destination of the last move op with that source, its
  mode, type and sha unchanged. The merged tree is the result of the keep-pass followed by one
  blob entry of mode \<open>100644\<close> per write op, in the order of the ops, with the op's path
  and content.
\<close>

theorem applyOps_move_and_writes:
  "(\<forall>e \<in> set (tree oldTree). \<forall>ops1 ops2 q.
      TreeEntry.type e \<noteq> js ''tree'' \<and> ops = ops1 @ Move (TreeEntry.path e) q # ops2 \<and>
      (\<forall>t. Move (TreeEntry.path e) t \<notin> set ops2) \<and>
      (\<forall>op \<in> set ops. \<not> targetsPath op (TreeEntry.path e)) \<longrightarrow>
      \<lparr>path = Some q, mode = Some (TreeEntry.mode e), type = Some (TreeEntry.type e),
        sha = Some (TreeEntry.sha e), content = None\<rparr> \<in> set (applyOps ops oldTree)) \<and>
   applyOps ops oldTree = mergeExisting ops (tree oldTree) [] @ concat (map writtenEntries ops)"
proof (intro conjI ballI allI impI)
  fix e ops1 ops2 q
  assume e: "e \<in> set (tree oldTree)"
    and h: "TreeEntry.type e \<noteq> js ''tree'' \<and> ops = ops1 @ Move (TreeEntry.path e) q # ops2 \<and>
      (\<forall>t. Move (TreeEntry.path e) t \<notin> set ops2) \<and>
      (\<forall>op \<in> set ops. \<not> targetsPath op (TreeEntry.path e))"
  let ?p = "TreeEntry.path e"
  have k: "fst (scanOps ops ?p True ?p)" using h by (simp add: scanOps_keep)
  have d: "snd (scanOps ops ?p True ?p) = q"
    using h scanOps_dest_last [of ops1 ops2 ?p q True ?p] by auto
  have "keptEntry q e \<in> set (keptEntries ops e)"
    using k d h by (simp add: keptEntries_def)
  then show "\<lparr>path = Some q, mode = Some (TreeEntry.mode e), type = Some (TreeEntry.type e),
        sha = Some (TreeEntry.sha e), content = None\<rparr> \<in> set (applyOps ops oldTree)"
    using e by (auto simp: in_applyOps)
next
  show "applyOps ops oldTree = mergeExisting ops (tree oldTree) [] @ concat (map writtenEntries ops)"
    by (simp add: applyOps_def mergeWrites_concat)
qed

theorem applyOps_move_and_writes_witness:
  "\<lparr>path = Some (js ''c''), mode = Some (js ''100755''), type = Some (js ''blob''),
     sha = Some (js ''s1''), content = None\<rparr>
   \<in> set (applyOps
            [Move (js ''a'') (js ''b''), Write (js ''n'') (js ''text''), Move (js ''a'') (js ''c'')]
            \<lparr>tree = [\<lparr>TreeEntry.path = js ''a'', mode = js ''100755'', type = js ''blob'',
                       sha = js ''s1''\<rparr>],
              truncated = False\<rparr>) \<and>
   applyOps [Move (js ''a'') (js ''b''), Write (js ''n'') (js ''text''), Move (js ''a'') (js ''c'')]
     \<lparr>tree = [\<lparr>TreeEntry.path = js ''a'', mode = js ''100755'', type = js ''blob'',
                sha = js ''s1''\<rparr>],
       truncated = False\<rparr>
   = [\<lparr>path = Some (js ''c''), mode = Some (js ''100755''), type = Some (js ''blob''),
       sha = Some (js ''s1''), content = None\<rparr>,
      \<lparr>path = Some (js ''n''), mode = Some (js ''100644''), type = Some (js ''blob''),
       sha = None, content = Some (js ''text'')\<rparr>]"
proof -
  let ?e = "\<lparr>TreeEntry.path = js ''a'', mode = js ''100755'', type = js ''blob'', sha = js ''s1''\<rparr>"
  let ?T = "\<lparr>tree = [?e], truncated = False\<rparr>"
  let ?ops = "[Move (js ''a'') (js ''b''), Write (js ''n'') (js ''text''), Move (js ''a'') (js ''c'')]"
  have e: "?e \<in> set (tree ?T)"
    by simp
  have h: "TreeEntry.type ?e \<noteq> js ''tree'' \<and>
      ?ops = [Move (js ''a'') (js ''b''), Write (js ''n'') (js ''text'')]
               @ Move (TreeEntry.path ?e) (js ''c'') # [] \<and>
      (\<forall>t. Move (TreeEntry.path ?e) t \<notin> set []) \<and>
      (\<forall>op \<in> set ?ops. \<not> targetsPath op (TreeEntry.path ?e))"
    by (simp add: js_def)
  note inst = applyOps_move_and_writes [of ?T ?ops]
  from inst [THEN conjunct1, THEN bspec, OF e, THEN spec, THEN spec, THEN spec, THEN mp, OF h]
  have "\<lparr>path = Some (js ''c''), mode = Some (js ''100755''), type = Some (js ''blob''),
     sha = Some (js ''s1''), content = None\<rparr> \<in> set (applyOps ?ops ?T)"
    by simp
  moreover from inst [THEN conjunct2]
  have "applyOps ?ops ?T
     = [\<lparr>path = Some (js ''c''), mode = Some (js ''100755''), type = Some (js ''blob''),
         sha = Some (js ''s1''), content = None\<rparr>,
        \<lparr>path = Some (js ''n''), mode = Some (js ''100644''), type = Some (js ''blob''),
         sha = None, content = Some (js ''text'')\<rparr>]"
    by (simp add: js_def)
  ultimately show ?thesis
    by (rule conjI)
qed

text \<open>
  C4 as stated fails: a delete op ordered after the move op still drops the entry.
\<close>

theorem applyOps_move_then_delete_drops:
  "applyOps [Move (js ''a'') (js ''b''), Remove (js ''a'')]
     \<lparr>tree = [\<lparr>TreeEntry.path = js ''a'', mode = js ''100644'', type = js ''blob'', sha = js ''s''\<rparr>],
      truncated = False\<rparr> = []"
  by (simp add: applyOps_def)

subsection \<open>Commit sequencing\<close>

lemma wrapPromise_Inr:
  "promise remote = (Inr v, remote') \<Longrightarrow>
   wrapPromise request promise message (remote, log) = (Inr v, (remote', log @ [request]))"
  by (simp add: wrapPromise_def)

text \<open>
  C3. When the ref, the commit and the tree are fetched and the tree snapshot is flagged
  truncated, \<open>commit\<close> returns the truncation error, for every op list, and the requests
  sent are exactly the three reads: no create-tree, create-commit or update-ref request is sent.
\<close>

theorem commit_truncated:
  fixes repo :: "'r Repo_scheme"
  assumes "git_getRef octokit (userName repo) (repoName repo) (js ''heads/main'') remote
             = (Inr oldCommitSHA, remote1)"
    and "git_getCommit octokit (userName repo) (repoName repo) oldCommitSHA remote1
             = (Inr oldTreeSHA, remote2)"
    and "git_getTree octokit (userName repo) (repoName repo) oldTreeSHA (js ''true'') remote2
             = (Inr oldTree, remote3)"
    and "truncated oldTree"
  shows "commit octokit repo ops commitMsg (remote, log)
         = (Inl truncatedError,
            (remote3,
             log @ [GetRef (userName repo) (repoName repo) (js ''heads/main''),
                    GetCommit (userName repo) (repoName repo) oldCommitSHA,
                    GetTree (userName repo) (repoName repo) oldTreeSHA (js ''true'')]))"
proof -
  have 1: "octokitGetRef octokit repo (js ''heads/main'') (remote, log)
        = (Inr oldCommitSHA, (remote1, log @ [GetRef (userName repo) (repoName repo) (js ''heads/main'')]))"
    unfolding octokitGetRef_def by (rule wrapPromise_Inr) (rule assms(1))
  have 2: "octokitGetCommit octokit repo oldCommitSHA (remote1, lg)
        = (Inr oldTreeSHA, (remote2, lg @ [GetCommit (userName repo) (repoName repo) oldCommitSHA]))" for lg
    unfolding octokitGetCommit_def by (rule wrapPromise_Inr) (rule assms(2))
  have 3: "octokitGetTree octokit repo oldTreeSHA (remote2, lg)
        = (Inr oldTree, (remote3, lg @ [GetTree (userName repo) (repoName repo) oldTreeSHA (js ''true'')]))" for lg
    unfolding octokitGetTree_def by (rule wrapPromise_Inr) (rule assms(3))
  show ?thesis
    unfolding commit_def
    by (simp add: startChain_def okAsync_def andThen_def 1 2 3 assms(4) errAsync_def)
qed


theorem commit_truncated_witness:
  "commit (exampleRemote True) exampleRepo [Write (js ''a.md'') (js ''new'')] (js ''message'') (0, [])
   = (Inl truncatedError,
      (0, [GetRef (js ''u'') (js ''r'') (js ''heads/main''),
           GetCommit (js ''u'') (js ''r'') (js ''c0''),
           GetTree (js ''u'') (js ''r'') (js ''t0'') (js ''true'')]))"
  using commit_truncated
    [of "exampleRemote True" exampleRepo 0 "js ''c0''" 0 "js ''t0''" 0
        "\<lparr>tree = [\<lparr>TreeEntry.path = js ''a.md'', mode = js ''100644'', type = js ''blob'',
                         sha = js ''b0''\<rparr>],
          truncated = True\<rparr>"
        0 "[Write (js ''a.md'') (js ''new'')]" "js ''message''" "[]"]
  by (simp add: exampleRemote_def exampleRepo_def)

text \<open>
  C10. For every repo, whatever its extension part holds, the first request of \<open>commit\<close>
  reads the ref \<open>heads/main\<close>. When \<open>commit\<close> succeeds with a SHA, the six endpoints
  were called in sequence, each on the remote state the previous one left: the ref
  \<open>heads/main\<close> was read, the commit and the recursive tree fetched, the tree not truncated,
  the new tree and the new commit created, and the endpoint updating \<open>heads/main\<close> to the
  SHA of the new commit, forced, accepted the update; the final remote state is the one this
  endpoint left. Conversely, when the five earlier calls succeed on an untruncated tree, the
  result and the final remote state of \<open>commit\<close> are those of the update endpoint: the new
  SHA when it accepts, the error \<open>Failed to update ref.\<close> wrapping its rejection when it
  rejects.
\<close>

theorem commit_heads_main:
  fixes repo :: "'r Repo_scheme"
  shows "(\<exists>rest. snd (snd (commit octokit repo ops commitMsg (remote, log)))
            = log @ GetRef (userName repo) (repoName repo) (js ''heads/main'') # rest) \<and>
   (\<forall>newCommitSHA. fst (commit octokit repo ops commitMsg (remote, log)) = Inr newCommitSHA \<longrightarrow>
      (\<exists>oldCommitSHA remote1 oldTreeSHA remote2 oldTree remote3 newTreeSHA remote4 remote5 remote6.
         git_getRef octokit (userName repo) (repoName repo) (js ''heads/main'') remote
           = (Inr oldCommitSHA, remote1) \<and>
         git_getCommit octokit (userName repo) (repoName repo) oldCommitSHA remote1
           = (Inr oldTreeSHA, remote2) \<and>
         git_getTree octokit (userName repo) (repoName repo) oldTreeSHA (js ''true'') remote2
           = (Inr oldTree, remote3) \<and>
         \<not> truncated oldTree \<and>
         git_createTree octokit (userName repo) (repoName repo) (applyOps ops oldTree) remote3
           = (Inr newTreeSHA, remote4) \<and>
         git_createCommit octokit (userName repo) (repoName repo) commitMsg [oldCommitSHA]
             newTreeSHA remote4
           = (Inr newCommitSHA, remote5) \<and>
         git_updateRef octokit (userName repo) (repoName repo) (js ''heads/main'') newCommitSHA
             True remote5
           = (Inr (), remote6) \<and>
         snd (commit octokit repo ops commitMsg (remote, log))
           = (remote6,
              log @ [GetRef (userName repo) (repoName repo) (js ''heads/main''),
                     GetCommit (userName repo) (repoName repo) oldCommitSHA,
                     GetTree (userName repo) (repoName repo) oldTreeSHA (js ''true''),
                     CreateTree (userName repo) (repoName repo) (applyOps ops oldTree),
                     CreateCommit (userName repo) (repoName repo) commitMsg [oldCommitSHA] newTreeSHA,
                     UpdateRef (userName repo) (repoName repo) (js ''heads/main'') newCommitSHA True]))) \<and>
   (\<forall>oldCommitSHA remote1 oldTreeSHA remote2 oldTree remote3 newTreeSHA remote4 newCommitSHA remote5
      outcome remote6.
      git_getRef octokit (userName repo) (repoName repo) (js ''heads/main'') remote
        = (Inr oldCommitSHA, remote1) \<and>
      git_getCommit octokit (userName repo) (repoName repo) oldCommitSHA remote1
        = (Inr oldTreeSHA, remote2) \<and>
      git_getTree octokit (userName repo) (repoName repo) oldTreeSHA (js ''true'') remote2
        = (Inr oldTree, remote3) \<and>
      \<not> truncated oldTree \<and>
      git_createTree octokit (userName repo) (repoName repo) (applyOps ops oldTree) remote3
        = (Inr newTreeSHA, remote4) \<and>
      git_createCommit octokit (userName repo) (repoName repo) commitMsg [oldCommitSHA]
          newTreeSHA remote4
        = (Inr newCommitSHA, remote5) \<and>
      git_updateRef octokit (userName repo) (repoName repo) (js ''heads/main'') newCommitSHA
          True remote5
        = (outcome, remote6) \<longrightarrow>
      commit octokit repo ops commitMsg (remote, log)
        = ((case outcome of
              Inl rejection \<Rightarrow>
                Inl \<lparr>msg = js ''Failed to update ref.'', originalError = Some rejection\<rparr>
            | Inr done \<Rightarrow> Inr newCommitSHA),
           (remote6,
            log @ [GetRef (userName repo) (repoName repo) (js ''heads/main''),
                   GetCommit (userName repo) (repoName repo) oldCommitSHA,
                   GetTree (userName repo) (repoName repo) oldTreeSHA (js ''true''),
                   CreateTree (userName repo) (repoName repo) (applyOps ops oldTree),
                   CreateCommit (userName repo) (repoName repo) commitMsg [oldCommitSHA] newTreeSHA,
                   UpdateRef (userName repo) (repoName repo) (js ''heads/main'') newCommitSHA True])))"
  unfolding commit_def startChain_def okAsync_def errAsync_def andThen_def mapResult_def
    octokitGetRef_def octokitGetCommit_def octokitGetTree_def octokitCreateTree_def
    octokitCreateCommit_def octokitUpdateRef_def wrapPromise_def
  by (auto split: prod.splits sum.splits if_splits)


theorem commit_heads_main_witness:
  "commit (exampleRefRemote False) exampleRepo [Write (js ''a.md'') (js ''new'')] (js ''message'')
     ([(js ''heads/main'', js ''c0'')], [])
   = (Inr (js ''c1''),
      ([(js ''heads/main'', js ''c1'')],
       [GetRef (js ''u'') (js ''r'') (js ''heads/main''),
        GetCommit (js ''u'') (js ''r'') (js ''c0''),
        GetTree (js ''u'') (js ''r'') (js ''t0'') (js ''true''),
        CreateTree (js ''u'') (js ''r'')
          [\<lparr>path = Some (js ''a.md''), mode = Some (js ''100644''), type = Some (js ''blob''),
            sha = None, content = Some (js ''new'')\<rparr>],
        CreateCommit (js ''u'') (js ''r'') (js ''message'') [js ''c0''] (js ''t1''),
        UpdateRef (js ''u'') (js ''r'') (js ''heads/main'') (js ''c1'') True])) \<and>
   commit (exampleRefRemote True) exampleRepo [Write (js ''a.md'') (js ''new'')] (js ''message'')
     ([(js ''heads/main'', js ''c0'')], [])
   = (Inl \<lparr>msg = js ''Failed to update ref.'',
            originalError = Some (Error (js ''Reference update failed''))\<rparr>,
      ([(js ''heads/main'', js ''c0'')],
       [GetRef (js ''u'') (js ''r'') (js ''heads/main''),
        GetCommit (js ''u'') (js ''r'') (js ''c0''),
        GetTree (js ''u'') (js ''r'') (js ''t0'') (js ''true''),
        CreateTree (js ''u'') (js ''r'')
          [\<lparr>path = Some (js ''a.md''), mode = Some (js ''100644''), type = Some (js ''blob''),
            sha = None, content = Some (js ''new'')\<rparr>],
        CreateCommit (js ''u'') (js ''r'') (js ''message'') [js ''c0''] (js ''t1''),
        UpdateRef (js ''u'') (js ''r'') (js ''heads/main'') (js ''c1'') True]))"
proof -
  let ?ops = "[Write (js ''a.md'') (js ''new'')]"
  let ?refs = "[(js ''heads/main'', js ''c0'')]"
  let ?oldTree = "\<lparr>tree = [\<lparr>TreeEntry.path = js ''a.md'', mode = js ''100644'',
                            type = js ''blob'', sha = js ''b0''\<rparr>],
                  truncated = False\<rparr>"
  have tree: "applyOps ?ops ?oldTree
      = [\<lparr>path = Some (js ''a.md''), mode = Some (js ''100644''), type = Some (js ''blob''),
          sha = None, content = Some (js ''new'')\<rparr>]"
    by (simp add: applyOps_def)
  have accepted: "git_getRef (exampleRefRemote False) (userName exampleRepo) (repoName exampleRepo)
        (js ''heads/main'') ?refs = (Inr (js ''c0''), ?refs) \<and>
      git_getCommit (exampleRefRemote False) (userName exampleRepo) (repoName exampleRepo)
        (js ''c0'') ?refs = (Inr (js ''t0''), ?refs) \<and>
      git_getTree (exampleRefRemote False) (userName exampleRepo) (repoName exampleRepo)
        (js ''t0'') (js ''true'') ?refs = (Inr ?oldTree, ?refs) \<and>
      \<not> truncated ?oldTree \<and>
      git_createTree (exampleRefRemote False) (userName exampleRepo) (repoName exampleRepo)
        (applyOps ?ops ?oldTree) ?refs = (Inr (js ''t1''), ?refs) \<and>
      git_createCommit (exampleRefRemote False) (userName exampleRepo) (repoName exampleRepo)
        (js ''message'') [js ''c0''] (js ''t1'') ?refs = (Inr (js ''c1''), ?refs) \<and>
      git_updateRef (exampleRefRemote False) (userName exampleRepo) (repoName exampleRepo)
        (js ''heads/main'') (js ''c1'') True ?refs
        = (Inr (), [(js ''heads/main'', js ''c1'')])"
    by (simp add: exampleRefRemote_def)
  have rejected: "git_getRef (exampleRefRemote True) (userName exampleRepo) (repoName exampleRepo)
        (js ''heads/main'') ?refs = (Inr (js ''c0''), ?refs) \<and>
      git_getCommit (exampleRefRemote True) (userName exampleRepo) (repoName exampleRepo)
        (js ''c0'') ?refs = (Inr (js ''t0''), ?refs) \<and>
      git_getTree (exampleRefRemote True) (userName exampleRepo) (repoName exampleRepo)
        (js ''t0'') (js ''true'') ?refs = (Inr ?oldTree, ?refs) \<and>
      \<not> truncated ?oldTree \<and>
      git_createTree (exampleRefRemote True) (userName exampleRepo) (repoName exampleRepo)
        (applyOps ?ops ?oldTree) ?refs = (Inr (js ''t1''), ?refs) \<and>
      git_createCommit (exampleRefRemote True) (userName exampleRepo) (repoName exampleRepo)
        (js ''message'') [js ''c0''] (js ''t1'') ?refs = (Inr (js ''c1''), ?refs) \<and>
      git_updateRef (exampleRefRemote True) (userName exampleRepo) (repoName exampleRepo)
        (js ''heads/main'') (js ''c1'') True ?refs
        = (Inl (Error (js ''Reference update failed'')), ?refs)"
    by (simp add: exampleRefRemote_def)
  note inst = commit_heads_main [of _ exampleRepo ?ops "js ''message''" ?refs "[]",
      THEN conjunct2, THEN conjunct2, rule_format]
  from inst [OF accepted] inst [OF rejected]
  show ?thesis
    by (simp add: tree exampleRepo_def)
qed
subsection \<open>Canonical ordering\<close>

lemma codeUnitCompare_flip: "(codeUnitCompare a b < 0) = (0 < codeUnitCompare b a)"
  by (induction a b rule: codeUnitCompare.induct) auto

lemma codeUnitCompare_le_iff:
  "codeUnitCompare (x # xs) (y # ys) \<le> 0 \<longleftrightarrow> x < y \<or> (x = y \<and> codeUnitCompare xs ys \<le> 0)"
  by auto

lemma codeUnitCompare_Nil_le [simp]: "codeUnitCompare [] b \<le> 0"
  by (cases b) simp_all

lemma codeUnitCompare_le_Nil [simp]: "codeUnitCompare a [] \<le> 0 \<longleftrightarrow> a = []"
  by (cases a) simp_all

lemma codeUnitCompare_trans:
  "codeUnitCompare a b \<le> 0 \<Longrightarrow> codeUnitCompare b c \<le> 0 \<Longrightarrow> codeUnitCompare a c \<le> 0"
proof (induction a arbitrary: b c)
  case Nil
  show ?case by simp
next
  case (Cons x xs)
  then obtain y ys where b: "b = y # ys" by (cases b) auto
  with Cons.prems obtain z zs where c: "c = z # zs" by (cases c) auto
  from Cons.prems have 1: "x < y \<or> (x = y \<and> codeUnitCompare xs ys \<le> 0)"
    and 2: "y < z \<or> (y = z \<and> codeUnitCompare ys zs \<le> 0)"
    unfolding b c codeUnitCompare_le_iff by simp_all
  then have "x < z \<or> (x = z \<and> codeUnitCompare xs zs \<le> 0)"
    using Cons.IH [of ys zs] by auto
  then show ?case
    unfolding c codeUnitCompare_le_iff .
qed

lemma consistent_codeUnitCompare: "consistentComparator codeUnitCompare"
  unfolding consistentComparator_def
  using codeUnitCompare_flip codeUnitCompare_trans by blast

lemma mset_insertSorted: "mset (insertSorted c x ys) = add_mset x (mset ys)"
  by (induction ys) simp_all

lemma mset_arraySort: "mset (arraySort c xs) = mset xs"
  by (induction xs) (simp_all add: arraySort_def mset_insertSorted)

lemma set_insertSorted: "set (insertSorted c x ys) = insert x (set ys)"
  by (induction ys) auto

lemma sorted_insertSorted:
  assumes total: "\<And>a b. \<not> c a b \<le> 0 \<Longrightarrow> c b a \<le> 0"
    and trans: "\<And>a b d. c a b \<le> 0 \<Longrightarrow> c b d \<le> 0 \<Longrightarrow> c a d \<le> 0"
  shows "sorted_wrt (\<lambda>a b. c a b \<le> 0) ys \<Longrightarrow> sorted_wrt (\<lambda>a b. c a b \<le> 0) (insertSorted c x ys)"
proof (induction ys)
  case Nil
  show ?case by simp
next
  case (Cons y ys)
  show ?case
  proof (cases "c x y \<le> 0")
    case True
    then have "\<forall>z \<in> set ys. c x z \<le> 0"
      using Cons.prems trans by auto
    then show ?thesis using True Cons.prems by simp
  next
    case False
    then have "c y x \<le> 0" by (rule total)
    then show ?thesis
      using False Cons by (auto simp: set_insertSorted)
  qed
qed

lemma sorted_arraySort:
  assumes total: "\<And>a b. \<not> c a b \<le> 0 \<Longrightarrow> c b a \<le> 0"
    and trans: "\<And>a b d. c a b \<le> 0 \<Longrightarrow> c b d \<le> 0 \<Longrightarrow> c a d \<le> 0"
  shows "sorted_wrt (\<lambda>a b. c a b \<le> 0) (arraySort c xs)"
proof (induction xs)
  case Nil
  show ?case by (simp add: arraySort_def)
next
  case (Cons x xs)
  then show ?case
    using sorted_insertSorted [of c "arraySort c xs" x, OF total trans]
    by (simp add: arraySort_def)
qed

lemma filter_insertSorted:
  assumes trans: "\<And>a b d. c a b \<le> 0 \<Longrightarrow> c b d \<le> 0 \<Longrightarrow> c a d \<le> 0"
  shows "filter (\<lambda>y. c k y \<le> 0 \<and> c y k \<le> 0) (insertSorted c x ys)
       = (if c k x \<le> 0 \<and> c x k \<le> 0 then x # filter (\<lambda>y. c k y \<le> 0 \<and> c y k \<le> 0) ys
          else filter (\<lambda>y. c k y \<le> 0 \<and> c y k \<le> 0) ys)"
proof (induction ys)
  case Nil
  show ?case by simp
next
  case (Cons y ys)
  show ?case
  proof (cases "c x y \<le> 0")
    case True
    then show ?thesis by simp
  next
    case False
    have "\<not> (c k y \<le> 0 \<and> c y k \<le> 0)" if "c k x \<le> 0 \<and> c x k \<le> 0"
      using that False trans by blast
    then show ?thesis
      using False Cons by auto
  qed
qed

lemma filter_arraySort:
  assumes trans: "\<And>a b d. c a b \<le> 0 \<Longrightarrow> c b d \<le> 0 \<Longrightarrow> c a d \<le> 0"
  shows "filter (\<lambda>y. c k y \<le> 0 \<and> c y k \<le> 0) (arraySort c xs)
       = filter (\<lambda>y. c k y \<le> 0 \<and> c y k \<le> 0) xs"
proof (induction xs)
  case Nil
  show ?case by (simp add: arraySort_def)
next
  case (Cons x xs)
  then show ?case
    using filter_insertSorted [of c k x "arraySort c xs", OF trans]
    by (simp add: arraySort_def)
qed

lemma assignIdx_enumerate:
  "assignIdx i es = map (\<lambda>(j, e). e\<lparr>idx := Some j\<rparr>) (enumerate i es)"
  by (induction es arbitrary: i) simp_all

lemma rank_inj: "entryKindNumericValues a = entryKindNumericValues b \<longleftrightarrow> a = b"
  by (cases a; cases b) simp_all

lemma rank_diff: "entryKindNumericValues a - entryKindNumericValues b \<le> 0
    \<longleftrightarrow> entryKindNumericValues a \<le> entryKindNumericValues b"
  by simp

lemma compareEntries_le:
  "compareEntries lower lc a b \<le> 0 \<longleftrightarrow> entryNotAfter lower lc a b"
  using rank_inj [of "kind (content a)" "kind (content b)"]
  by (auto simp: compareEntries_def entryNotAfter_def)

lemma entryNotAfter_total:
  assumes "consistentComparator lc"
  shows "\<not> entryNotAfter lower lc a b \<Longrightarrow> entryNotAfter lower lc b a"
proof -
  have "lc x y \<le> 0 \<or> lc y x \<le> 0" for x y
    using assms unfolding consistentComparator_def
    by (metis less_le_not_le linorder_le_cases)
  then show "\<not> entryNotAfter lower lc a b \<Longrightarrow> entryNotAfter lower lc b a"
    unfolding entryNotAfter_def
    by (metis linorder_neqE_linordered_idom rank_inj)
qed

lemma entryNotAfter_trans:
  assumes "consistentComparator lc"
  shows "entryNotAfter lower lc a b \<Longrightarrow> entryNotAfter lower lc b d \<Longrightarrow> entryNotAfter lower lc a d"
proof -
  have t: "lc x y \<le> 0 \<Longrightarrow> lc y z \<le> 0 \<Longrightarrow> lc x z \<le> 0" for x y z
    using assms unfolding consistentComparator_def by blast
  show "entryNotAfter lower lc a b \<Longrightarrow> entryNotAfter lower lc b d \<Longrightarrow> entryNotAfter lower lc a d"
    unfolding entryNotAfter_def
    using t [of "lower (title a)" "lower (title b)" "lower (title d)"] by auto
qed

lemma consistent_flip:
  assumes "consistentComparator lc" "lc x y < 0"
  shows "\<not> lc y x \<le> 0"
  using assms unfolding consistentComparator_def by (metis not_le)

text \<open>
  C9. For a consistent \<open>localeCompare\<close>, and for every entry list, the result of
  \<open>sortAndIndexEntries\<close> is a permutation of the entries that is sorted first by the rank
  of the kind (Note before Document before Link) and then by the comparison of the lower-cased
  titles, that keeps tied entries in their order, and in which each entry's \<open>idx\<close> is its
  position. When ``A'' compares before ``B'' after lower-casing, the list Link z, Note B,
  Document a, Note A sorts to Note A, Note B, Document a, Link z with \<open>idx\<close> 0 to 3.
\<close>

theorem sortAndIndexEntries_sorted:
  assumes "consistentComparator localeCompare"
  shows "(\<exists>sorted.
           mset sorted = mset entries \<and>
           sorted_wrt (entryNotAfter toLowerCase localeCompare) sorted \<and>
           (\<forall>k. filter (\<lambda>e. entryNotAfter toLowerCase localeCompare k e \<and>
                              entryNotAfter toLowerCase localeCompare e k) sorted
               = filter (\<lambda>e. entryNotAfter toLowerCase localeCompare k e \<and>
                              entryNotAfter toLowerCase localeCompare e k) entries) \<and>
           sortAndIndexEntries toLowerCase localeCompare entries
             = map (\<lambda>(i, e). e\<lparr>idx := Some i\<rparr>) (enumerate 0 sorted)) \<and>
         (kind (content l) = Link \<and> title l = js ''z'' \<and>
          kind (content nB) = NoteMarkdown \<and> title nB = js ''B'' \<and>
          kind (content d) = Document \<and> title d = js ''a'' \<and>
          kind (content nA) = NoteMarkdown \<and> title nA = js ''A'' \<and>
          localeCompare (toLowerCase (js ''A'')) (toLowerCase (js ''B'')) < 0 \<longrightarrow>
          sortAndIndexEntries toLowerCase localeCompare [l, nB, d, nA]
            = [nA\<lparr>idx := Some 0\<rparr>, nB\<lparr>idx := Some 1\<rparr>, d\<lparr>idx := Some 2\<rparr>, l\<lparr>idx := Some 3\<rparr>])"
proof (intro conjI impI)
  let ?c = "compareEntries toLowerCase localeCompare"
  let ?le = "entryNotAfter toLowerCase localeCompare"
  have total: "\<not> ?c a b \<le> 0 \<Longrightarrow> ?c b a \<le> 0" for a b
    using entryNotAfter_total [OF assms] by (simp add: compareEntries_le)
  have trans: "?c a b \<le> 0 \<Longrightarrow> ?c b d \<le> 0 \<Longrightarrow> ?c a d \<le> 0" for a b d
    using entryNotAfter_trans [OF assms] by (simp add: compareEntries_le)
  have 1: "mset (arraySort ?c entries) = mset entries"
    by (rule mset_arraySort)
  have 2: "sorted_wrt ?le (arraySort ?c entries)"
    using sorted_arraySort [of ?c entries, OF total trans] by (simp add: compareEntries_le)
  have 3: "filter (\<lambda>e. ?le k e \<and> ?le e k) (arraySort ?c entries)
         = filter (\<lambda>e. ?le k e \<and> ?le e k) entries" for k
    using filter_arraySort [of ?c k entries, OF trans] by (simp add: compareEntries_le)
  have 4: "sortAndIndexEntries toLowerCase localeCompare entries
         = map (\<lambda>(i, e). e\<lparr>idx := Some i\<rparr>) (enumerate 0 (arraySort ?c entries))"
    by (simp add: sortAndIndexEntries_def assignIdx_enumerate)
  show "\<exists>sorted.
           mset sorted = mset entries \<and>
           sorted_wrt ?le sorted \<and>
           (\<forall>k. filter (\<lambda>e. ?le k e \<and> ?le e k) sorted = filter (\<lambda>e. ?le k e \<and> ?le e k) entries) \<and>
           sortAndIndexEntries toLowerCase localeCompare entries
             = map (\<lambda>(i, e). e\<lparr>idx := Some i\<rparr>) (enumerate 0 sorted)"
    using 1 2 3 4 by blast
next
  assume h: "kind (content l) = Link \<and> title l = js ''z'' \<and>
          kind (content nB) = NoteMarkdown \<and> title nB = js ''B'' \<and>
          kind (content d) = Document \<and> title d = js ''a'' \<and>
          kind (content nA) = NoteMarkdown \<and> title nA = js ''A'' \<and>
          localeCompare (toLowerCase (js ''A'')) (toLowerCase (js ''B'')) < 0"
  then have "\<not> localeCompare (toLowerCase (js ''B'')) (toLowerCase (js ''A'')) \<le> 0"
    using consistent_flip [OF assms] by blast
  then show "sortAndIndexEntries toLowerCase localeCompare [l, nB, d, nA]
            = [nA\<lparr>idx := Some 0\<rparr>, nB\<lparr>idx := Some 1\<rparr>, d\<lparr>idx := Some 2\<rparr>, l\<lparr>idx := Some 3\<rparr>]"
    using h by (simp add: sortAndIndexEntries_def arraySort_def compareEntries_def)
qed

theorem sortAndIndexEntries_sorted_witness:
  "sortAndIndexEntries asciiToLowerCase codeUnitCompare
     [entryOfLink (exampleLink ''z'' ''t'' True []),
      entryOfFile (exampleNote ''r'' ''x'' ''B'' [] []),
      entryOfFile (exampleDocument ''r'' ''x'' ''a''),
      entryOfFile (exampleNote ''r'' ''x'' ''A'' [] [])]
   = [(entryOfFile (exampleNote ''r'' ''x'' ''A'' [] []))\<lparr>idx := Some 0\<rparr>,
      (entryOfFile (exampleNote ''r'' ''x'' ''B'' [] []))\<lparr>idx := Some 1\<rparr>,
      (entryOfFile (exampleDocument ''r'' ''x'' ''a''))\<lparr>idx := Some 2\<rparr>,
      (entryOfLink (exampleLink ''z'' ''t'' True []))\<lparr>idx := Some 3\<rparr>]"
proof -
  have h: "kind (content (entryOfLink (exampleLink ''z'' ''t'' True []))) = Link \<and>
      title (entryOfLink (exampleLink ''z'' ''t'' True [])) = js ''z'' \<and>
      kind (content (entryOfFile (exampleNote ''r'' ''x'' ''B'' [] []))) = NoteMarkdown \<and>
      title (entryOfFile (exampleNote ''r'' ''x'' ''B'' [] [])) = js ''B'' \<and>
      kind (content (entryOfFile (exampleDocument ''r'' ''x'' ''a''))) = Document \<and>
      title (entryOfFile (exampleDocument ''r'' ''x'' ''a'')) = js ''a'' \<and>
      kind (content (entryOfFile (exampleNote ''r'' ''x'' ''A'' [] []))) = NoteMarkdown \<and>
      title (entryOfFile (exampleNote ''r'' ''x'' ''A'' [] [])) = js ''A'' \<and>
      codeUnitCompare (asciiToLowerCase (js ''A'')) (asciiToLowerCase (js ''B'')) < 0"
    by (simp add: entryOfLink_def entryOfFile_def exampleLink_def exampleNote_def
        exampleDocument_def asciiToLowerCase_def js_def)
  from sortAndIndexEntries_sorted [OF consistent_codeUnitCompare, THEN conjunct2, THEN mp, OF h]
  show ?thesis .
qed

subsection \<open>Link reconciliation\<close>

lemma resetLink_simps [simp]:
  "target (content (resetLink l)) = target (content l)"
  "standaloneRepo (content (resetLink l)) = standaloneRepo (content l)"
  "ownLabels (content (resetLink l)) = ownLabels (content l)"
  "title (resetLink l) = title l" "priority (resetLink l) = priority l"
  "key (resetLink l) = key l" "idx (resetLink l) = idx l"
  "labels (resetLink l) = ownLabels (content l)"
  "referencedBy (content (resetLink l)) = []"
  "refRepos (content (resetLink l)) = []"
  "refLocations (content (resetLink l)) = []"
  by (simp_all add: resetLink_def)

lemma addReference_simps [simp]:
  "target (content (addReference g n e c l)) = target (content l)"
  "standaloneRepo (content (addReference g n e c l)) = standaloneRepo (content l)"
  "ownLabels (content (addReference g n e c l)) = ownLabels (content l)"
  "title (addReference g n e c l) = title l" "priority (addReference g n e c l) = priority l"
  "key (addReference g n e c l) = key l" "idx (addReference g n e c l) = idx l"
  by (simp_all add: addReference_def)

lemma newLinkEntry_simps [simp]:
  "target (content (newLinkEntry e c t)) = t"
  "standaloneRepo (content (newLinkEntry e c t)) = None"
  by (simp_all add: newLinkEntry_def recomputeKeyLink_def)

lemma sameLink_refl [simp]: "sameLink l l"
  by (simp add: sameLink_def)



lemma sameLink_addReference [simp]: "sameLink l (addReference g n e c l)"
  by (simp add: sameLink_def)

lemma wfState_initial: "wfState initialState"
  by (simp add: wfState_def initialState_def)

lemma existingLinksLoop_Cons:
  "existingLinksLoop (l # L) st = existingLinksLoop L (existingLinkStep l st)"
  by (simp add: existingLinkStep_def Let_def)


lemma linkTargetsLoop_Cons:
  "linkTargetsLoop g n e c (t # ts) st =
     (case linkTargetStep g n e c t st of Inl x \<Rightarrow> Inl x | Inr st1 \<Rightarrow> linkTargetsLoop g n e c ts st1)"
  by (cases "linkMap st t") (auto simp: linkTargetStep_def inObject_def Let_def)

lemmas loop_simps = existingLinksLoop_Cons existingLinksLoop.simps(1)
  linkTargetsLoop_Cons linkTargetsLoop.simps(1)

lemma linkTargetsLoop_append:
  "linkTargetsLoop g n e c (A @ B) st =
     (case linkTargetsLoop g n e c A st of Inl x \<Rightarrow> Inl x | Inr st1 \<Rightarrow> linkTargetsLoop g n e c B st1)"
  by (induction A arbitrary: st)
     (auto simp only: loop_simps append.simps sum.case split: sum.splits)

lemma fileEntriesLoop_append:
  "fileEntriesLoop g n (A @ B) st =
     (case fileEntriesLoop g n A st of Inl x \<Rightarrow> Inl x | Inr st1 \<Rightarrow> fileEntriesLoop g n B st1)"
  by (induction A arbitrary: st) (auto split: sum.splits ContentFile.splits)

lemma existingLinkStep_cases:
  assumes "wfState st"
  obtains (skip) "inObject (linkMap st) (target (content l))" "existingLinkStep l st = st"
  | (standalone) "linkMap st (target (content l)) = None"
      "target (content l) \<notin> set objectPrototypeKeys"
      "target (content l) \<notin> set (linkEntries st)" "linkInserted st (target (content l)) = None"
      "standaloneRepo (content l) \<noteq> None"
      "existingLinkStep l st = st\<lparr>linkEntries := linkEntries st @ [target (content l)],
                 linkInserted := (linkInserted st)(target (content l) \<mapsto> True),
                 linkMap := (linkMap st)(target (content l) \<mapsto> resetLink l)\<rparr>"
  | (plain) "linkMap st (target (content l)) = None"
      "target (content l) \<notin> set objectPrototypeKeys"
      "target (content l) \<notin> set (linkEntries st)" "linkInserted st (target (content l)) = None"
      "standaloneRepo (content l) = None"
      "existingLinkStep l st = st\<lparr>linkMap := (linkMap st)(target (content l) \<mapsto> resetLink l)\<rparr>"
proof (cases "inObject (linkMap st) (target (content l))")
  case True
  then show ?thesis by (simp add: existingLinkStep_def skip)
next
  case False
  then have n: "linkMap st (target (content l)) = None" "target (content l) \<notin> set objectPrototypeKeys"
    by (simp_all add: inObject_def)
  with assms have ni: "target (content l) \<notin> set (linkEntries st)" "linkInserted st (target (content l)) = None"
    by (auto simp: wfState_def)
  show ?thesis
  proof (cases "standaloneRepo (content l) = None")
    case True
    then show ?thesis using False n ni by (intro plain) (simp_all add: existingLinkStep_def)
  next
    case F2: False
    then show ?thesis using False n ni by (intro standalone) (simp_all add: existingLinkStep_def)
  qed
qed

lemma linkTargetStep_cases:
  assumes "wfState st" "linkTargetStep g n e c t st = Inr st1"
  obtains (new) "linkMap st t = None" "t \<notin> set objectPrototypeKeys"
      "t \<notin> set (linkEntries st)" "linkInserted st t = None"
      "st1 = st\<lparr>linkEntries := linkEntries st @ [t],
                  linkInserted := (linkInserted st)(t \<mapsto> True),
                  linkMap := (linkMap st)(t \<mapsto> newLinkEntry e c t)\<rparr>"
  | (push) l0 where "linkMap st t = Some l0" "target (content l0) = t"
      "t \<notin> set (linkEntries st)" "linkInserted st t = None"
      "st1 = st\<lparr>linkMap := (linkMap st)(t \<mapsto> addReference g n e c l0),
                  linkEntries := linkEntries st @ [t],
                  linkInserted := (linkInserted st)(t \<mapsto> True)\<rparr>"
  | (update) l0 where "linkMap st t = Some l0" "target (content l0) = t"
      "t \<in> set (linkEntries st)"
      "st1 = st\<lparr>linkMap := (linkMap st)(t \<mapsto> addReference g n e c l0)\<rparr>"
proof (cases "linkMap st t")
  case None
  with assms(2) have p: "t \<notin> set objectPrototypeKeys"
    by (auto simp: linkTargetStep_def split: if_splits)
  from None assms(1) have "t \<notin> set (linkEntries st)" "linkInserted st t = None"
    by (auto simp: wfState_def)
  then show ?thesis
    using None p assms(2) by (intro new) (auto simp: linkTargetStep_def)
next
  case (Some l0)
  with assms(1) have tt: "target (content l0) = t" "t \<notin> set objectPrototypeKeys"
    by (auto simp: wfState_def)
  show ?thesis
  proof (cases "linkInserted st t")
    case None
    with assms(1) have "t \<notin> set (linkEntries st)" by (auto simp: wfState_def)
    then show ?thesis
      using None Some tt assms(2)
      by (intro push [of l0]) (auto simp: linkTargetStep_def inObject_def)
  next
    case S2: (Some b)
    with assms(1) have "t \<in> set (linkEntries st)" by (auto simp: wfState_def)
    then show ?thesis
      using S2 Some tt assms(2)
      by (intro update [of l0]) (auto simp: linkTargetStep_def inObject_def)
  qed
qed

lemma wfState_existingLinkStep:
  assumes "wfState st"
  shows "wfState (existingLinkStep l st)"
  by (rule existingLinkStep_cases [OF assms, of l]) (use assms in \<open>auto simp: wfState_def\<close>)

lemma wfState_existingLinksLoop: "wfState st \<Longrightarrow> wfState (existingLinksLoop L st)"
  by (induction L arbitrary: st) (simp_all only: loop_simps wfState_existingLinkStep)

lemma wfState_linkTargetStep:
  assumes "wfState st" "linkTargetStep g n e c t st = Inr st1"
  shows "wfState st1"
  by (rule linkTargetStep_cases [OF assms]) (use assms(1) in \<open>auto simp: wfState_def\<close>)

lemma wfState_linkTargetsLoop:
  "wfState st \<Longrightarrow> linkTargetsLoop g n e c ts st = Inr st' \<Longrightarrow> wfState st'"
proof (induction ts arbitrary: st)
  case Nil
  then show ?case by simp
next
  case (Cons t ts)
  from Cons.prems(2) obtain st1 where 1: "linkTargetStep g n e c t st = Inr st1"
    and 2: "linkTargetsLoop g n e c ts st1 = Inr st'"
    by (auto simp only: loop_simps split: sum.splits)
  from wfState_linkTargetStep [OF Cons.prems(1) 1] 2 Cons.IH show ?case by blast
qed

lemma fileEntriesLoop_Cons_cases:
  assumes "fileEntriesLoop g n (e # F) st = Inr st'"
  obtains (isNote) c st1 where "content e = Note c" "linkTargetsLoop g n e c (links c) st = Inr st1"
      "fileEntriesLoop g n F st1 = Inr st'"
  | (isDoc) d where "content e = Doc d" "fileEntriesLoop g n F st = Inr st'"
  using assms by (cases "content e") (auto split: sum.splits)

lemma wfState_fileEntriesLoop:
  "wfState st \<Longrightarrow> fileEntriesLoop g n F st = Inr st' \<Longrightarrow> wfState st'"
proof (induction F arbitrary: st)
  case Nil
  then show ?case by simp
next
  case (Cons e F)
  from Cons.prems(2) show ?case
  proof (cases rule: fileEntriesLoop_Cons_cases)
    case (isNote c st1)
    from wfState_linkTargetsLoop [OF Cons.prems(1) isNote(2)] isNote(3) Cons.IH show ?thesis by blast
  next
    case (isDoc d)
    with Cons show ?thesis by blast
  qed
qed

lemma map_filter_mem: "r \<in> set (List.map_filter m ks) \<longleftrightarrow> (\<exists>k \<in> set ks. m k = Some r)"
  by (induction ks) (auto simp: List.map_filter_simps split: option.splits)

subsection \<open>The loop over the existing links\<close>

lemma existingLinkStep_frame:
  "t \<noteq> target (content l) \<Longrightarrow>
   linkMap (existingLinkStep l st) t = linkMap st t \<and>
   (t \<in> set (linkEntries (existingLinkStep l st)) \<longleftrightarrow> t \<in> set (linkEntries st))"
  by (simp add: existingLinkStep_def)

lemma existingLinksLoop_frame:
  "t \<notin> set (map (\<lambda>l. target (content l)) L) \<Longrightarrow>
   linkMap (existingLinksLoop L st) t = linkMap st t \<and>
   (t \<in> set (linkEntries (existingLinksLoop L st)) \<longleftrightarrow> t \<in> set (linkEntries st))"
proof (induction L arbitrary: st)
  case Nil
  show ?case by simp
next
  case (Cons l L)
  then show ?case
    using existingLinkStep_frame [of t l st] by (simp only: loop_simps) simp
qed







subsection \<open>The loop over the link targets of a note\<close>

lemma linkTargetStep_frame:
  assumes "wfState st" "linkTargetStep g n e c t st = Inr st1" "t' \<noteq> t"
  shows "linkMap st1 t' = linkMap st t' \<and> (t' \<in> set (linkEntries st1) \<longleftrightarrow> t' \<in> set (linkEntries st))"
  by (rule linkTargetStep_cases [OF assms(1,2)]) (use assms(3) in auto)



lemma linkTargetStep_returns:
  "t \<notin> set objectPrototypeKeys \<Longrightarrow> \<exists>st1. linkTargetStep g n e c t st = Inr st1"
  by (simp add: linkTargetStep_def split: option.splits)

lemma linkTargetsLoop_Cons_cases:
  assumes "linkTargetsLoop g n e c (t # ts) st = Inr st'"
  obtains st1 where "linkTargetStep g n e c t st = Inr st1" "linkTargetsLoop g n e c ts st1 = Inr st'"
  using assms by (auto simp only: loop_simps split: sum.splits)

lemma linkTargetsLoop_frame:
  "wfState st \<Longrightarrow> linkTargetsLoop g n e c ts st = Inr st' \<Longrightarrow> t' \<notin> set ts \<Longrightarrow>
   linkMap st' t' = linkMap st t' \<and> (t' \<in> set (linkEntries st') \<longleftrightarrow> t' \<in> set (linkEntries st))"
proof (induction ts arbitrary: st)
  case Nil
  then show ?case by simp
next
  case (Cons t ts)
  from Cons.prems(2) obtain st1 where 1: "linkTargetStep g n e c t st = Inr st1"
    and 2: "linkTargetsLoop g n e c ts st1 = Inr st'"
    by (rule linkTargetsLoop_Cons_cases)
  from Cons.prems(3) have ne: "t' \<noteq> t" "t' \<notin> set ts" by auto
  show ?case
    using Cons.IH [OF wfState_linkTargetStep [OF Cons.prems(1) 1] 2 ne(2)]
      linkTargetStep_frame [OF Cons.prems(1) 1 ne(1)]
    by simp
qed



lemma linkTargetsLoop_returns:
  "\<forall>t \<in> set ts. t \<notin> set objectPrototypeKeys \<Longrightarrow> \<exists>st'. linkTargetsLoop g n e c ts st = Inr st'"
proof (induction ts arbitrary: st)
  case Nil
  show ?case by simp
next
  case (Cons t ts)
  then obtain st1 where "linkTargetStep g n e c t st = Inr st1"
    using linkTargetStep_returns [of t g n e c st] by auto
  then show ?case
    using Cons by (simp only: loop_simps) simp
qed

subsection \<open>The loop over the file entries\<close>

lemma fileEntriesLoop_frame:
  "wfState st \<Longrightarrow> fileEntriesLoop g n F st = Inr st' \<Longrightarrow> t' \<notin> set (referencedTargets F) \<Longrightarrow>
   linkMap st' t' = linkMap st t' \<and> (t' \<in> set (linkEntries st') \<longleftrightarrow> t' \<in> set (linkEntries st))"
proof (induction F arbitrary: st)
  case Nil
  then show ?case by simp
next
  case (Cons e F)
  from Cons.prems(3) have r: "t' \<notin> set (noteLinks e)" "t' \<notin> set (referencedTargets F)"
    by (simp_all add: referencedTargets_def)
  from Cons.prems(2) show ?case
  proof (cases rule: fileEntriesLoop_Cons_cases)
    case (isNote c st1)
    from r(1) isNote(1) have "t' \<notin> set (links c)" by simp
    from linkTargetsLoop_frame [OF Cons.prems(1) isNote(2) this]
      Cons.IH [OF wfState_linkTargetsLoop [OF Cons.prems(1) isNote(2)] isNote(3) r(2)]
    show ?thesis by simp
  next
    case (isDoc d)
    with Cons.IH [OF Cons.prems(1) _ r(2)] show ?thesis by simp
  qed
qed



lemma fileEntriesLoop_returns:
  "\<forall>t \<in> set (referencedTargets F). t \<notin> set objectPrototypeKeys \<Longrightarrow>
   \<exists>st'. fileEntriesLoop g n F st = Inr st'"
proof (induction F arbitrary: st)
  case Nil
  show ?case by simp
next
  case (Cons e F)
  then have r: "\<forall>t \<in> set (noteLinks e). t \<notin> set objectPrototypeKeys"
    "\<forall>t \<in> set (referencedTargets F). t \<notin> set objectPrototypeKeys"
    by (simp_all add: referencedTargets_def)
  show ?case
  proof (cases "content e")
    case (Note c)
    with r(1) obtain st1 where "linkTargetsLoop g n e c (links c) st = Inr st1"
      using linkTargetsLoop_returns [of "links c" g n e c st] by auto
    then show ?thesis using Note Cons.IH [OF r(2)] by simp
  next
    case (Doc d)
    then show ?thesis using Cons.IH [OF r(2)] by simp
  qed
qed

lemma filter_target_map_filter:
  assumes "\<And>k l. m k = Some l \<Longrightarrow> target (content l) = k"
  shows "distinct ks \<Longrightarrow>
     filter (\<lambda>r. target (content r) = t) (List.map_filter m ks)
       = (if t \<in> set ks then (case m t of Some l \<Rightarrow> [l] | None \<Rightarrow> []) else [])"
proof (induction ks)
  case Nil
  show ?case by (simp add: List.map_filter_simps)
next
  case (Cons k ks)
  show ?case
  proof (cases "m k")
    case None
    then show ?thesis using Cons by (auto simp: List.map_filter_simps)
  next
    case (Some l)
    then have "target (content l) = k" by (rule assms)
    then show ?thesis using Some Cons by (auto simp: List.map_filter_simps)
  qed
qed

lemma filter_target_result:
  assumes "wfState st" "linkMap st t = Some l" "t \<in> set (linkEntries st)"
  shows "filter (\<lambda>r. target (content r) = t) (List.map_filter (linkMap st) (linkEntries st)) = [l]"
proof -
  have "\<And>k l. linkMap st k = Some l \<Longrightarrow> target (content l) = k"
    using assms(1) by (simp add: wfState_def)
  moreover have "distinct (linkEntries st)"
    using assms(1) by (simp add: wfState_def)
  ultimately show ?thesis
    using filter_target_map_filter [of "linkMap st" "linkEntries st" t] assms(2,3) by simp
qed

lemma wfState_after_existing: "wfState (existingLinksLoop L initialState)"
  by (rule wfState_existingLinksLoop [OF wfState_initial])

lemma recomputeLinkEntries_unfold:
  "recomputeLinkEntries g n F L =
     (case fileEntriesLoop g n F (existingLinksLoop L initialState) of
        Inl x \<Rightarrow> Inl x
      | Inr st \<Rightarrow> Inr (List.map_filter (linkMap st) (linkEntries st)))"
  by (simp add: recomputeLinkEntries_def initialState_def)




lemma linkTargetsLoop_once:
  assumes w: "wfState st"
    and run: "linkTargetsLoop g n e c (a @ t # b) st = Inr st'"
    and na: "t \<notin> set a" and nb: "t \<notin> set b"
  shows "t \<in> set (linkEntries st') \<and>
     linkMap st' t = Some (case linkMap st t of None \<Rightarrow> newLinkEntry e c t
                           | Some l0 \<Rightarrow> addReference g n e c l0)"
proof -
  from run obtain sa where a: "linkTargetsLoop g n e c a st = Inr sa"
    and r1: "linkTargetsLoop g n e c (t # b) sa = Inr st'"
    by (auto simp: linkTargetsLoop_append split: sum.splits)
  from r1 obtain s1 where s: "linkTargetStep g n e c t sa = Inr s1"
    and b: "linkTargetsLoop g n e c b s1 = Inr st'"
    by (rule linkTargetsLoop_Cons_cases)
  note wa = wfState_linkTargetsLoop [OF w a]
  note w1 = wfState_linkTargetStep [OF wa s]
  have fa: "linkMap sa t = linkMap st t"
    using linkTargetsLoop_frame [OF w a na] by simp
  have "t \<in> set (linkEntries s1) \<and>
     linkMap s1 t = Some (case linkMap sa t of None \<Rightarrow> newLinkEntry e c t
                           | Some l0 \<Rightarrow> addReference g n e c l0)"
    by (rule linkTargetStep_cases [OF wa s]) auto
  then show ?thesis
    using linkTargetsLoop_frame [OF w1 b nb] fa by simp
qed

lemma fileEntriesLoop_note_once:
  assumes w: "wfState st"
    and run: "fileEntriesLoop g n (F1 @ e # F2) st = Inr st'"
    and e: "content e = Note c" "links c = a @ t # b" "t \<notin> set a" "t \<notin> set b"
    and n1: "t \<notin> set (referencedTargets F1)"
  obtains s2 where "fileEntriesLoop g n F2 s2 = Inr st'" "wfState s2"
    "t \<in> set (linkEntries s2)"
    "linkMap s2 t = Some (case linkMap st t of None \<Rightarrow> newLinkEntry e c t
                           | Some l0 \<Rightarrow> addReference g n e c l0)"
proof -
  from run obtain s1 where f1: "fileEntriesLoop g n F1 st = Inr s1"
    and r1: "fileEntriesLoop g n (e # F2) s1 = Inr st'"
    by (auto simp: fileEntriesLoop_append split: sum.splits)
  from r1 e(1) obtain s2 where l: "linkTargetsLoop g n e c (links c) s1 = Inr s2"
    and f2: "fileEntriesLoop g n F2 s2 = Inr st'"
    by (auto split: sum.splits)
  note w1 = wfState_fileEntriesLoop [OF w f1]
  note w2 = wfState_linkTargetsLoop [OF w1 l]
  have "linkMap s1 t = linkMap st t"
    using fileEntriesLoop_frame [OF w f1 n1] by simp
  then have "t \<in> set (linkEntries s2) \<and>
     linkMap s2 t = Some (case linkMap st t of None \<Rightarrow> newLinkEntry e c t
                           | Some l0 \<Rightarrow> addReference g n e c l0)"
    using linkTargetsLoop_once [OF w1 l [unfolded e(2)] e(3,4)] by simp
  then show ?thesis
    using that [OF f2 w2] by blast
qed

text \<open>
  Two notes that each list a target once, for any label normalization: the link of the target
  holds the two notes, their repos and locations, and the normalization of the first note's
  labels followed by the second's.
\<close>

lemma two_notes_one_link:
  fixes getRepoId :: "Repo \<Rightarrow> 'i" and normalizeLabels :: "jsstring list \<Rightarrow> jsstring list"
  assumes "\<forall>t \<in> set (referencedTargets fileEntries). t \<notin> set objectPrototypeKeys"
    and "fileEntries = F1 @ e1 # F2 @ e2 # F3"
    and "content e1 = Note n1" and "links n1 = a1 @ t # b1" and "t \<notin> set a1" and "t \<notin> set b1"
    and "content e2 = Note n2" and "links n2 = a2 @ t # b2" and "t \<notin> set a2" and "t \<notin> set b2"
    and "t \<notin> set (referencedTargets F1)" and "t \<notin> set (referencedTargets F2)"
    and "t \<notin> set (referencedTargets F3)"
    and "t \<notin> set (map (\<lambda>l. target (content l)) existingLinkEntries)"
    and "location n1 \<noteq> location n2"
  shows "\<exists>result.
     recomputeLinkEntries getRepoId normalizeLabels fileEntries existingLinkEntries = Inr result \<and>
     filter (\<lambda>r. target (content r) = t) result =
       [\<lparr>title = t, priority = 0, labels = normalizeLabels (labels e1 @ labels e2),
         content = \<lparr>target = t, referencedBy = [e1, e2], standaloneRepo = None,
                    refRepos = (if getRepoId (repo n1) = getRepoId (repo n2) then [repo n1]
                                else [repo n1, repo n2]),
                    refLocations = [location n1, location n2], ownLabels = []\<rparr>,
         key = Some (js ''__link_'' @ t), idx = None\<rparr>]"
proof -
  let ?st0 = "existingLinksLoop existingLinkEntries initialState"
  have w0: "wfState ?st0" by (rule wfState_after_existing)
  obtain st' where run: "fileEntriesLoop getRepoId normalizeLabels fileEntries ?st0 = Inr st'"
    using fileEntriesLoop_returns [OF assms(1)] by blast
  have w': "wfState st'" by (rule wfState_fileEntriesLoop [OF w0 run])
  have m0: "linkMap ?st0 t = None"
    using existingLinksLoop_frame [OF assms(14), of initialState] by (simp add: initialState_def)
  from run have run1: "fileEntriesLoop getRepoId normalizeLabels (F1 @ e1 # (F2 @ e2 # F3)) ?st0 = Inr st'"
    by (simp add: assms(2))
  from fileEntriesLoop_note_once [OF w0 run1 assms(3,4,5,6,11)]
  obtain s2 where s2: "fileEntriesLoop getRepoId normalizeLabels (F2 @ e2 # F3) s2 = Inr st'"
    "wfState s2" "linkMap s2 t = Some (newLinkEntry e1 n1 t)"
    using m0 by auto
  from fileEntriesLoop_note_once [OF s2(2) s2(1) assms(7,8,9,10,12)]
  obtain s3 where s3: "fileEntriesLoop getRepoId normalizeLabels F3 s3 = Inr st'"
    "wfState s3" "t \<in> set (linkEntries s3)"
    "linkMap s3 t = Some (addReference getRepoId normalizeLabels e2 n2 (newLinkEntry e1 n1 t))"
    using s2(3) by auto
  have fin: "linkMap st' t = Some (addReference getRepoId normalizeLabels e2 n2 (newLinkEntry e1 n1 t))"
    "t \<in> set (linkEntries st')"
    using fileEntriesLoop_frame [OF s3(2) s3(1) assms(13)] s3(3,4) by simp_all
  have val: "addReference getRepoId normalizeLabels e2 n2 (newLinkEntry e1 n1 t) =
       \<lparr>title = t, priority = 0, labels = normalizeLabels (labels e1 @ labels e2),
         content = \<lparr>target = t, referencedBy = [e1, e2], standaloneRepo = None,
                    refRepos = (if getRepoId (repo n1) = getRepoId (repo n2) then [repo n1]
                                else [repo n1, repo n2]),
                    refLocations = [location n1, location n2], ownLabels = []\<rparr>,
         key = Some (js ''__link_'' @ t), idx = None\<rparr>"
    using assms(15)
    by (simp add: addReference_def newLinkEntry_def recomputeKeyLink_def mergeRepos_def
        mergeLocations_def mergeLabels_def)
  show ?thesis
    using filter_target_result [OF w' fin] val
    by (simp add: recomputeLinkEntries_unfold run)
qed

text \<open>
  The label normalization keeps the set of labels and leaves no duplicate.
\<close>

lemma set_normalizeLabels:
  "set (normalizeLabels toLowerCase localeCompare labelList) = set labelList"
  using mset_eq_setD [OF mset_arraySort [of _ "remdups labelList"]]
  by (simp add: normalizeLabels_def)

lemma distinct_normalizeLabels:
  "distinct (normalizeLabels toLowerCase localeCompare labelList)"
  using mset_eq_imp_distinct_iff [OF mset_arraySort [of _ "remdups labelList"]]
  by (simp add: normalizeLabels_def)

text \<open>
  C7 (as amended). Let two notes in different locations each list the target \<open>t\<close> exactly
  once among their link targets, let no other file entry list it, let no existing link have
  it, and let no note link to a target named like a property of \<open>Object.prototype\<close>. Then
  \<open>recomputeLinkEntries\<close> returns a list with exactly one link entry for \<open>t\<close>: its
  back-references are the two notes, its referencing repos are the first note's repo and, when
  its repo id differs, the second's, its referencing locations are the two locations in order,
  and its labels are the deduplicated union of both notes' labels: the normalization of the
  first note's labels followed by the second's, a list without duplicates whose elements are
  exactly the labels of the first note and those of the second.
\<close>

theorem recomputeLinkEntries_two_notes:
  fixes getRepoId :: "Repo \<Rightarrow> 'i"
  assumes "\<forall>t \<in> set (referencedTargets fileEntries). t \<notin> set objectPrototypeKeys"
    and "fileEntries = F1 @ e1 # F2 @ e2 # F3"
    and "content e1 = Note n1" and "links n1 = a1 @ t # b1" and "t \<notin> set a1" and "t \<notin> set b1"
    and "content e2 = Note n2" and "links n2 = a2 @ t # b2" and "t \<notin> set a2" and "t \<notin> set b2"
    and "t \<notin> set (referencedTargets F1)" and "t \<notin> set (referencedTargets F2)"
    and "t \<notin> set (referencedTargets F3)"
    and "t \<notin> set (map (\<lambda>l. target (content l)) existingLinkEntries)"
    and "location n1 \<noteq> location n2"
  shows "\<exists>result mergedLabels.
     recomputeLinkEntries getRepoId (normalizeLabels toLowerCase localeCompare)
       fileEntries existingLinkEntries = Inr result \<and>
     filter (\<lambda>r. target (content r) = t) result =
       [\<lparr>title = t, priority = 0, labels = mergedLabels,
         content = \<lparr>target = t, referencedBy = [e1, e2], standaloneRepo = None,
                    refRepos = (if getRepoId (repo n1) = getRepoId (repo n2) then [repo n1]
                                else [repo n1, repo n2]),
                    refLocations = [location n1, location n2], ownLabels = []\<rparr>,
         key = Some (js ''__link_'' @ t), idx = None\<rparr>] \<and>
     mergedLabels = normalizeLabels toLowerCase localeCompare (labels e1 @ labels e2) \<and>
     set mergedLabels = set (labels e1) \<union> set (labels e2) \<and>
     distinct mergedLabels"
  using two_notes_one_link [OF assms, of getRepoId "normalizeLabels toLowerCase localeCompare"]
  by (auto simp: set_normalizeLabels distinct_normalizeLabels)

theorem recomputeLinkEntries_two_notes_witness:
  "\<exists>result.
     recomputeLinkEntries getRepoId (normalizeLabels asciiToLowerCase codeUnitCompare)
       [exampleNote ''r1'' ''x'' ''n1'' [''b'', ''c''] [''t''],
        exampleNote ''r2'' ''y'' ''n2'' [''a'', ''b''] [''t'']] [] = Inr result \<and>
     map (\<lambda>r. (labels r, length (referencedBy (content r)), refLocations (content r),
                map repoName (refRepos (content r))))
       (filter (\<lambda>r. target (content r) = js ''t'') result)
     = [([js ''a'', js ''b'', js ''c''], 2, [js ''x'', js ''y''], [js ''r1'', js ''r2''])]"
proof -
  let ?e1 = "exampleNote ''r1'' ''x'' ''n1'' [''b'', ''c''] [''t'']"
  let ?e2 = "exampleNote ''r2'' ''y'' ''n2'' [''a'', ''b''] [''t'']"
  let ?n1 = "\<lparr>repo = exampleRepoOf ''r1'', location = js ''x'', extension = js ''md'',
              timeCreated = 0, timeUpdated = 0, rawUrl = None,
              text' = js ''text'', html = js ''html'', links = map js [''t'']\<rparr>"
  let ?n2 = "\<lparr>repo = exampleRepoOf ''r2'', location = js ''y'', extension = js ''md'',
              timeCreated = 0, timeUpdated = 0, rawUrl = None,
              text' = js ''text'', html = js ''html'', links = map js [''t'']\<rparr>"
  let ?nl = "normalizeLabels asciiToLowerCase codeUnitCompare"
  have h1: "\<forall>t \<in> set (referencedTargets [?e1, ?e2]). t \<notin> set objectPrototypeKeys"
    by code_simp
  have h2: "[?e1, ?e2] = [] @ ?e1 # [] @ ?e2 # []"
    by simp
  have h3: "content ?e1 = Note ?n1" "content ?e2 = Note ?n2"
    by (simp_all add: exampleNote_def)
  have h4: "links ?n1 = [] @ js ''t'' # []" "links ?n2 = [] @ js ''t'' # []"
    by simp_all
  have h5: "js ''t'' \<notin> set []" "js ''t'' \<notin> set (referencedTargets [])"
    "js ''t'' \<notin> set (map (\<lambda>l. target (content l)) [])"
    by (simp_all add: referencedTargets_def)
  have h6: "location ?n1 \<noteq> location ?n2"
    by (simp add: js_def)
  from recomputeLinkEntries_two_notes
    [where getRepoId = getRepoId and toLowerCase = asciiToLowerCase
       and localeCompare = codeUnitCompare,
     OF h1 h2 h3(1) h4(1) h5(1) h5(1) h3(2) h4(2) h5(1) h5(1) h5(2) h5(2) h5(2) h5(3) h6]
  obtain result where R:
    "recomputeLinkEntries getRepoId ?nl [?e1, ?e2] [] = Inr result \<and>
     filter (\<lambda>r. target (content r) = js ''t'') result =
       [\<lparr>title = js ''t'', priority = 0, labels = ?nl (labels ?e1 @ labels ?e2),
         content = \<lparr>target = js ''t'', referencedBy = [?e1, ?e2], standaloneRepo = None,
                    refRepos = (if getRepoId (repo ?n1) = getRepoId (repo ?n2) then [repo ?n1]
                                else [repo ?n1, repo ?n2]),
                    refLocations = [location ?n1, location ?n2], ownLabels = []\<rparr>,
         key = Some (js ''__link_'' @ js ''t''), idx = None\<rparr>]"
    by auto
  have ev: "?nl (labels ?e1 @ labels ?e2) = [js ''a'', js ''b'', js ''c'']"
    "getRepoId (exampleRepoOf ''r1'') \<noteq> getRepoId (exampleRepoOf ''r2'')"
    "repoName (exampleRepoOf ''r1'') = js ''r1''" "repoName (exampleRepoOf ''r2'') = js ''r2''"
    by code_simp+
  show ?thesis
    using R ev by (intro exI [of _ result]) simp
qed

text \<open>
  C7 as stated fails: a note that lists the target twice is pushed twice, and the
  back-reference list of the link has length 3.
\<close>

theorem recomputeLinkEntries_counts_repeated_target:
  "(case recomputeLinkEntries getRepoId (normalizeLabels asciiToLowerCase codeUnitCompare)
       [exampleNote ''r1'' ''x'' ''n1'' [] [''t'', ''t''],
        exampleNote ''r2'' ''y'' ''n2'' [] [''t'']] [] of
      Inl exception \<Rightarrow> []
    | Inr result \<Rightarrow> map (\<lambda>r. (target (content r), length (referencedBy (content r)))) result)
   = [(js ''t'', 3)]"
  by code_simp

subsection \<open>Entry extraction and loading\<close>

text \<open>
  The first two parts of C5 hold: for a tracked path outside the reserved folder whose meta
  file is present without content and with a fetch error, the loop body leaves both the
  extracted entries and the edit-side file maps as they are: no entry is derived and no meta
  file is staged.
\<close>

lemma extractFile_meta_fetch_failed:
  fixes getRepoId :: "Repo \<Rightarrow> 'i"
  assumes "\<not> isNotemarksFile env (File.path file)"
    and "fileMapGet fileMap (getAssociatedMetaPath (File.path file)) = Some metaFile"
    and "File.content metaFile = None" and "File.error metaFile \<noteq> None"
  shows "extractFile env getRepoId r fileMap file acc = acc"
  using assms by (cases acc) (simp add: extractFile_def Let_def)

text \<open>
  Hence the extraction of a repo's files is the extraction of its files without those whose
  meta file failed to fetch, looked up in the same file map.
\<close>

lemma extract_skips_meta_fetch_failed:
  fixes getRepoId :: "Repo \<Rightarrow> 'i"
  shows "foldl (\<lambda>acc file. extractFile env getRepoId r fileMap file acc) acc files
       = foldl (\<lambda>acc file. extractFile env getRepoId r fileMap file acc) acc
           (filter (\<lambda>file. \<not> metaFetchFailed env fileMap file) files)"
proof (induction files arbitrary: acc)
  case Nil
  show ?case by simp
next
  case (Cons f files)
  show ?case
  proof (cases "metaFetchFailed env fileMap f")
    case True
    then obtain metaFile where "\<not> isNotemarksFile env (File.path f)"
      "fileMapGet fileMap (getAssociatedMetaPath (File.path f)) = Some metaFile"
      "File.content metaFile = None" "File.error metaFile \<noteq> None"
      by (auto simp: metaFetchFailed_def split: option.splits)
    then have "extractFile env getRepoId r fileMap f acc = acc"
      by (rule extractFile_meta_fetch_failed)
    then show ?thesis
      using True Cons by simp
  next
    case False
    then show ?thesis
      using Cons by simp
  qed
qed

text \<open>
  C5, its third part, at the failing input: a repo with the fetched note \<open>a.md\<close> and its meta
  file \<open>.notemarks/a.md.yaml\<close> whose fetch failed. \<open>loadEntries\<close> returns no entries, no
  link registries and no staged changes, which is also what it returns for a repo without any
  file: its result has no component for load errors, and the failed fetch is not surfaced.
\<close>

theorem loadEntries_hides_meta_fetch_error:
  "loadEntries exampleCollaborators getRepoId (\<lambda>r. [exampleNoteFile, exampleMetaFileFailed])
     [exampleRepoOf ''r''] = ([], [], []) \<and>
   loadEntries exampleCollaborators getRepoId (\<lambda>r. []) [exampleRepoOf ''r''] = ([], [], [])"
  by code_simp

subsection \<open>The reconciliation, target by target\<close>

lemma resetLink_idem [simp]: "resetLink (resetLink l) = resetLink l"
  by (simp add: resetLink_def)

lemma resetLink_addReference [simp]: "resetLink (addReference g n e c l) = resetLink l"
  by (simp add: resetLink_def addReference_def)

lemma addRefs_Nil [simp]: "addRefs g n l [] = l"
  by (simp add: addRefs_def)

lemma addRefs_Cons [simp]: "addRefs g n l ((e, c) # rs) = addRefs g n (addReference g n e c l) rs"
  by (simp add: addRefs_def)

lemma addRefs_append: "addRefs g n l (rs @ rs') = addRefs g n (addRefs g n l rs) rs'"
  by (simp add: addRefs_def)

lemma resetLink_addRefs [simp]: "resetLink (addRefs g n l rs) = resetLink l"
  by (induction rs arbitrary: l) auto

lemma standaloneRepo_addRefs [simp]:
  "standaloneRepo (content (addRefs g n l rs)) = standaloneRepo (content l)"
  by (induction rs arbitrary: l) auto

lemma finalLink_Nil [simp]: "finalLink g n m t [] = m"
  by (simp add: finalLink_def split: option.splits)

lemma finalLink_append:
  "finalLink g n (finalLink g n m t rs) t rs' = finalLink g n m t (rs @ rs')"
  by (cases m; cases rs) (auto simp: finalLink_def addRefs_append split: option.splits)

lemma linkTargetStep_same:
  assumes "wfState st" "linkTargetStep g n e c t st = Inr st1"
  shows "linkMap st1 t = finalLink g n (linkMap st t) t [(e, c)]"
  by (rule linkTargetStep_cases [OF assms]) (auto simp: finalLink_def)

lemma linkTargetsLoop_final:
  "wfState st \<Longrightarrow> linkTargetsLoop g n e c ts st = Inr st' \<Longrightarrow>
   linkMap st' t = finalLink g n (linkMap st t) t (replicate (count_list ts t) (e, c))"
proof (induction ts arbitrary: st)
  case Nil
  then show ?case by simp
next
  case (Cons x ts)
  from Cons.prems(2) obtain st1 where 1: "linkTargetStep g n e c x st = Inr st1"
    and 2: "linkTargetsLoop g n e c ts st1 = Inr st'"
    by (rule linkTargetsLoop_Cons_cases)
  note ih = Cons.IH [OF wfState_linkTargetStep [OF Cons.prems(1) 1] 2]
  show ?case
  proof (cases "x = t")
    case True
    have "linkMap st1 t = finalLink g n (linkMap st t) t [(e, c)]"
      using linkTargetStep_same [OF Cons.prems(1) 1] True by simp
    then show ?thesis
      using ih True finalLink_append [of g n "linkMap st t" t "[(e, c)]"] by simp
  next
    case False
    then show ?thesis
      using ih linkTargetStep_frame [OF Cons.prems(1) 1, of t] by simp
  qed
qed

lemma fileEntriesLoop_final:
  "wfState st \<Longrightarrow> fileEntriesLoop g n F st = Inr st' \<Longrightarrow>
   linkMap st' t = finalLink g n (linkMap st t) t (refsOf t F)"
proof (induction F arbitrary: st)
  case Nil
  then show ?case by simp
next
  case (Cons e F)
  from Cons.prems(2) show ?case
  proof (cases rule: fileEntriesLoop_Cons_cases)
    case (isNote c st1)
    from linkTargetsLoop_final [OF Cons.prems(1) isNote(2), of t]
      Cons.IH [OF wfState_linkTargetsLoop [OF Cons.prems(1) isNote(2)] isNote(3)]
    show ?thesis
      using isNote(1) by (simp add: finalLink_append)
  next
    case (isDoc d)
    with Cons.IH [OF Cons.prems(1)] show ?thesis by simp
  qed
qed

lemma refsOf_mem:
  "(e, c) \<in> set (refsOf t F) \<Longrightarrow> e \<in> set F \<and> content e = Note c"
  by (induction F) (auto split: ContentFile.splits)

subsection \<open>The order of the pushes\<close>

lemma newTargets_append:
  "newTargets seen (a @ b) = newTargets seen a @ newTargets (seen \<union> set a) b"
  by (induction a arbitrary: seen) (auto simp: insert_absorb)

lemma set_newTargets: "seen \<union> set (newTargets seen ts) = seen \<union> set ts"
proof (induction ts arbitrary: seen)
  case Nil
  show ?case by simp
next
  case (Cons a ts)
  show ?case
    using Cons [of seen] Cons [of "insert a seen"] by auto
qed

lemma wfState_entry:
  assumes "wfState st" "t \<in> set (linkEntries st)"
  obtains l where "linkMap st t = Some l" "target (content l) = t" "t \<notin> set objectPrototypeKeys"
proof -
  from assms have "t \<in> dom (linkMap st)"
    unfolding wfState_def by auto
  then obtain l where l: "linkMap st t = Some l"
    by auto
  with assms(1) have "target (content l) = t" "t \<notin> set objectPrototypeKeys"
    unfolding wfState_def by auto
  with l show ?thesis
    by (rule that)
qed

lemma linkTargetStep_entries:
  assumes "wfState st" "linkTargetStep g n e c t st = Inr st1"
  shows "linkEntries st1 = linkEntries st @ newTargets (set (linkEntries st)) [t]"
  by (rule linkTargetStep_cases [OF assms]) auto

lemma linkTargetsLoop_entries:
  "wfState st \<Longrightarrow> linkTargetsLoop g n e c ts st = Inr st' \<Longrightarrow>
   linkEntries st' = linkEntries st @ newTargets (set (linkEntries st)) ts"
proof (induction ts arbitrary: st)
  case Nil
  then show ?case by simp
next
  case (Cons x ts)
  from Cons.prems(2) obtain st1 where 1: "linkTargetStep g n e c x st = Inr st1"
    and 2: "linkTargetsLoop g n e c ts st1 = Inr st'"
    by (rule linkTargetsLoop_Cons_cases)
  have s: "linkEntries st1 = linkEntries st @ newTargets (set (linkEntries st)) [x]"
    by (rule linkTargetStep_entries [OF Cons.prems(1) 1])
  have "linkEntries st' = linkEntries st1 @ newTargets (set (linkEntries st1)) ts"
    by (rule Cons.IH [OF wfState_linkTargetStep [OF Cons.prems(1) 1] 2])
  then show ?case
    using s by (auto simp: insert_absorb)
qed

lemma fileEntriesLoop_entries:
  "wfState st \<Longrightarrow> fileEntriesLoop g n F st = Inr st' \<Longrightarrow>
   linkEntries st' = linkEntries st @ newTargets (set (linkEntries st)) (referencedTargets F)"
proof (induction F arbitrary: st)
  case Nil
  then show ?case by (simp add: referencedTargets_def)
next
  case (Cons e F)
  from Cons.prems(2) show ?case
  proof (cases rule: fileEntriesLoop_Cons_cases)
    case (isNote c st1)
    have 1: "linkEntries st1 = linkEntries st @ newTargets (set (linkEntries st)) (links c)"
      by (rule linkTargetsLoop_entries [OF Cons.prems(1) isNote(2)])
    have 2: "linkEntries st' = linkEntries st1 @ newTargets (set (linkEntries st1)) (referencedTargets F)"
      by (rule Cons.IH [OF wfState_linkTargetsLoop [OF Cons.prems(1) isNote(2)] isNote(3)])
    have "set (linkEntries st1) = set (linkEntries st) \<union> set (links c)"
      using 1 set_newTargets [of "set (linkEntries st)" "links c"] by simp
    then show ?thesis
      using 1 2 isNote(1) by (simp add: referencedTargets_def newTargets_append)
  next
    case (isDoc d)
    with Cons.IH [OF Cons.prems(1)] show ?thesis by (simp add: referencedTargets_def)
  qed
qed

lemma fileEntriesLoop_no_prototype_key:
  "wfState st \<Longrightarrow> fileEntriesLoop g n F st = Inr st' \<Longrightarrow>
   \<forall>t \<in> set (referencedTargets F). t \<notin> set objectPrototypeKeys"
proof -
  assume w: "wfState st" and run: "fileEntriesLoop g n F st = Inr st'"
  have w': "wfState st'" by (rule wfState_fileEntriesLoop [OF w run])
  have "set (referencedTargets F) \<subseteq> set (linkEntries st')"
    using fileEntriesLoop_entries [OF w run] set_newTargets [of "set (linkEntries st)" "referencedTargets F"]
    by auto
  then have "t \<in> set (linkEntries st')" if "t \<in> set (referencedTargets F)" for t
    using that by auto
  then show ?thesis
    using wfState_entry [OF w'] by metis
qed

subsection \<open>The state after the first loop\<close>

lemma resetState_initial: "resetState initialState"
  by (simp add: resetState_def initialState_def)

lemma resetState_existingLinkStep:
  assumes "wfState st" "resetState st"
  shows "resetState (existingLinkStep l st)"
  by (rule existingLinkStep_cases [OF assms(1), of l])
     (use assms(2) in \<open>auto simp: resetState_def\<close>)

lemma resetState_existingLinksLoop:
  "wfState st \<Longrightarrow> resetState st \<Longrightarrow> resetState (existingLinksLoop L st)"
  by (induction L arbitrary: st)
     (simp_all only: loop_simps resetState_existingLinkStep wfState_existingLinkStep)

text \<open>The first loop on a list of links with distinct targets that are not yet in the map.\<close>

lemma existingLinksLoop_distinct:
  "distinct ks \<Longrightarrow>
   \<forall>k \<in> set ks. \<exists>l. m k = Some l \<and> target (content l) = k \<and> k \<notin> set objectPrototypeKeys \<Longrightarrow>
   \<forall>k \<in> set ks. linkMap st k = None \<Longrightarrow>
   linkEntries (existingLinksLoop (List.map_filter m ks) st)
     = linkEntries st @ filter (\<lambda>k. standaloneRepo (content (the (m k))) \<noteq> None) ks \<and>
   (\<forall>t. linkMap (existingLinksLoop (List.map_filter m ks) st) t
        = (if t \<in> set ks then map_option resetLink (m t) else linkMap st t))"
proof (induction ks arbitrary: st)
  case Nil
  show ?case by (simp add: List.map_filter_simps)
next
  case (Cons k ks)
  from Cons.prems(2) obtain l where l: "m k = Some l" "target (content l) = k"
    "k \<notin> set objectPrototypeKeys"
    by auto
  let ?st1 = "existingLinkStep l st"
  have fresh: "\<not> inObject (linkMap st) k"
    using Cons.prems(3) l(3) by (simp add: inObject_def)
  have e1: "linkEntries ?st1 = linkEntries st @ (if standaloneRepo (content l) \<noteq> None then [k] else [])"
    and m1: "linkMap ?st1 = (linkMap st)(k \<mapsto> resetLink l)"
    using fresh l(2) by (simp_all add: existingLinkStep_def)
  have 3: "\<forall>k' \<in> set ks. linkMap ?st1 k' = None"
    using Cons.prems(1,3) m1 by auto
  have "List.map_filter m (k # ks) = l # List.map_filter m ks"
    using l(1) by (simp add: List.map_filter_simps)
  then have u: "existingLinksLoop (List.map_filter m (k # ks)) st
      = existingLinksLoop (List.map_filter m ks) ?st1"
    by (simp only: loop_simps)
  from Cons.IH [of ?st1] Cons.prems(1,2) 3
  have ih: "linkEntries (existingLinksLoop (List.map_filter m ks) ?st1)
     = linkEntries ?st1 @ filter (\<lambda>k. standaloneRepo (content (the (m k))) \<noteq> None) ks"
    "\<And>t. linkMap (existingLinksLoop (List.map_filter m ks) ?st1) t
        = (if t \<in> set ks then map_option resetLink (m t) else linkMap ?st1 t)"
    by simp_all
  show ?case
    unfolding u using ih e1 m1 l(1) by auto
qed

lemma map_filter_cong_on:
  "\<forall>k \<in> set ks. m k = m' k \<Longrightarrow> List.map_filter m ks = List.map_filter m' ks"
  by (induction ks) (auto simp: List.map_filter_simps split: option.splits)

subsection \<open>Idempotence of the reconciliation\<close>

lemma addReference_reset_new:
  assumes "n (labels e) = labels e"
  shows "addReference g n e c (resetLink (newLinkEntry e c t)) = newLinkEntry e c t"
  using assms
  by (simp add: addReference_def resetLink_def newLinkEntry_def recomputeKeyLink_def
      mergeRepos_def mergeLocations_def mergeLabels_def)

text \<open>The links that \<open>recomputeLinkEntries\<close> returns have distinct targets.\<close>

lemma map_filter_targets:
  "\<forall>k \<in> set ks. \<exists>l. m k = Some l \<and> target (content l) = k \<Longrightarrow>
   map (\<lambda>l. target (content l)) (List.map_filter m ks) = ks"
  by (induction ks) (auto simp: List.map_filter_simps)

lemma map_filter_map_option:
  "\<forall>k \<in> set ks. \<exists>l. m k = Some l \<and> target (content l) = k \<Longrightarrow>
   List.map_filter (\<lambda>k. map_option (f k) (m k)) ks
     = map (\<lambda>l. f (target (content l)) l) (List.map_filter m ks)"
  by (induction ks) (auto simp: List.map_filter_simps)

lemma recomputeLinkEntries_distinct_targets:
  assumes "recomputeLinkEntries g n F L = Inr result"
  shows "distinct (map (\<lambda>l. target (content l)) result)"
proof -
  let ?st0 = "existingLinksLoop L initialState"
  from assms obtain st' where run: "fileEntriesLoop g n F ?st0 = Inr st'"
    and res: "result = List.map_filter (linkMap st') (linkEntries st')"
    by (auto simp: recomputeLinkEntries_unfold split: sum.splits)
  have w': "wfState st'"
    by (rule wfState_fileEntriesLoop [OF wfState_after_existing run])
  have keys: "\<forall>k \<in> set (linkEntries st'). \<exists>l. linkMap st' k = Some l \<and> target (content l) = k"
    using wfState_entry [OF w'] by metis
  have "distinct (linkEntries st')"
    using w' by (simp add: wfState_def)
  then show ?thesis
    unfolding res map_filter_targets [OF keys] .
qed

text \<open>The position of an element in a list without repetitions.\<close>

lemma assignedIdx_nth:
  "a \<in> set order \<Longrightarrow> assignedIdx order a < length order \<and> order ! assignedIdx order a = a"
  by (induction order) (auto simp: assignedIdx_def)

lemma assignedIdx_of_nth:
  assumes "distinct order" "p < length order"
  shows "assignedIdx order (order ! p) = p"
proof -
  have a: "order ! p \<in> set order" using assms(2) by simp
  from assignedIdx_nth [OF a]
  have "assignedIdx order (order ! p) < length order"
    "order ! assignedIdx order (order ! p) = order ! p"
    by simp_all
  then show ?thesis
    using nth_eq_iff_index_eq [OF assms(1) _ assms(2)] by simp
qed

lemma addReference_idx:
  "addReference g n e c (l\<lparr>idx := j\<rparr>) = (addReference g n e c l)\<lparr>idx := j\<rparr>"
  by (simp add: addReference_def)

lemma addRefs_idx: "addRefs g n (l\<lparr>idx := j\<rparr>) rs = (addRefs g n l rs)\<lparr>idx := j\<rparr>"
  by (induction rs arbitrary: l) (auto simp: addReference_idx)

lemma target_resetLink [simp]: "target (content (resetLink l)) = target (content l)"
  by (simp add: resetLink_def)

lemma standaloneRepo_resetLink [simp]:
  "standaloneRepo (content (resetLink l)) = standaloneRepo (content l)"
  by (simp add: resetLink_def)

lemma idx_resetLink [simp]: "idx (resetLink l) = idx l"
  by (simp add: resetLink_def)

text \<open>
  When \<open>normalizeLabels\<close> leaves the labels of every file entry as they are, a second pass
  over the links of the first returns the same links. This holds as well when the links
  given to the second pass have been changed in their \<open>idx\<close> and in what the first loop
  resets: then the second pass returns the links of the first with the new \<open>idx\<close>.
\<close>

lemma recomputeLinkEntries_second_pass_reset:
  fixes getRepoId :: "Repo \<Rightarrow> 'i" and normalizeLabels :: "jsstring list \<Rightarrow> jsstring list"
  assumes norm: "\<forall>e \<in> set fileEntries. normalizeLabels (labels e) = labels e"
    and first: "recomputeLinkEntries getRepoId normalizeLabels fileEntries existingLinkEntries
                  = Inr linkEntries1"
    and changed: "\<forall>l \<in> set linkEntries1.
        resetLink (f (target (content l)) l) = (resetLink l)\<lparr>idx := i (target (content l))\<rparr>"
  shows "recomputeLinkEntries getRepoId normalizeLabels fileEntries
           (map (\<lambda>l. f (target (content l)) l) linkEntries1)
         = Inr (map (\<lambda>l. l\<lparr>idx := i (target (content l))\<rparr>) linkEntries1)"
proof -
  let ?g = getRepoId and ?n = normalizeLabels and ?F = fileEntries
  let ?st0 = "existingLinksLoop existingLinkEntries initialState"
  have w0: "wfState ?st0" by (rule wfState_after_existing)
  have r0: "resetState ?st0"
    by (rule resetState_existingLinksLoop [OF wfState_initial resetState_initial])
  from first obtain st' where run: "fileEntriesLoop ?g ?n ?F ?st0 = Inr st'"
    and L1: "linkEntries1 = List.map_filter (linkMap st') (linkEntries st')"
    by (auto simp: recomputeLinkEntries_unfold split: sum.splits)
  have w': "wfState st'" by (rule wfState_fileEntriesLoop [OF w0 run])
  have ent': "linkEntries st' = linkEntries ?st0 @ newTargets (set (linkEntries ?st0)) (referencedTargets ?F)"
    by (rule fileEntriesLoop_entries [OF w0 run])
  have fin': "linkMap st' t = finalLink ?g ?n (linkMap ?st0 t) t (refsOf t ?F)" for t
    by (rule fileEntriesLoop_final [OF w0 run])
  have noproto: "\<forall>t \<in> set (referencedTargets ?F). t \<notin> set objectPrototypeKeys"
    by (rule fileEntriesLoop_no_prototype_key [OF w0 run])

  \<comment> \<open>the links of the first pass, by their targets\<close>
  have d': "distinct (linkEntries st')"
    using w' by (simp add: wfState_def)
  have keys: "\<forall>k \<in> set (linkEntries st').
      \<exists>l. linkMap st' k = Some l \<and> target (content l) = k \<and> k \<notin> set objectPrototypeKeys"
    using wfState_entry [OF w'] by metis
  then have keys0: "\<forall>k \<in> set (linkEntries st'). \<exists>l. linkMap st' k = Some l \<and> target (content l) = k"
    by blast

  \<comment> \<open>the links given to the second pass\<close>
  let ?m = "\<lambda>k. map_option (f k) (linkMap st' k)"
  have ch: "resetLink (f k l) = (resetLink l)\<lparr>idx := i k\<rparr>"
    if "k \<in> set (linkEntries st')" "linkMap st' k = Some l" for k l
  proof -
    have "l \<in> set linkEntries1"
      unfolding L1 map_filter_mem using that by blast
    moreover have "target (content l) = k"
      using that keys by auto
    ultimately show ?thesis
      using changed by blast
  qed
  have ch_target: "target (content (f k l)) = k"
    and ch_standalone: "standaloneRepo (content (f k l)) = standaloneRepo (content l)"
    if "k \<in> set (linkEntries st')" "linkMap st' k = Some l" for k l
  proof -
    have "target (content (resetLink (f k l))) = target (content l)"
      "standaloneRepo (content (resetLink (f k l))) = standaloneRepo (content l)"
      unfolding ch [OF that] by simp_all
    moreover have "target (content l) = k"
      using that keys by auto
    ultimately show "target (content (f k l)) = k"
      "standaloneRepo (content (f k l)) = standaloneRepo (content l)"
      by simp_all
  qed
  have given: "map (\<lambda>l. f (target (content l)) l) linkEntries1 = List.map_filter ?m (linkEntries st')"
    unfolding L1 by (rule map_filter_map_option [OF keys0, symmetric])
  have keys2: "\<forall>k \<in> set (linkEntries st').
      \<exists>l. ?m k = Some l \<and> target (content l) = k \<and> k \<notin> set objectPrototypeKeys"
  proof
    fix k assume k: "k \<in> set (linkEntries st')"
    with keys obtain l where l: "linkMap st' k = Some l" "k \<notin> set objectPrototypeKeys"
      by auto
    then show "\<exists>l. ?m k = Some l \<and> target (content l) = k \<and> k \<notin> set objectPrototypeKeys"
      using ch_target [OF k l(1)] by simp
  qed

  \<comment> \<open>which of them are standalone\<close>
  have sa: "(standaloneRepo (content (the (?m k))) \<noteq> None) = (k \<in> set (linkEntries ?st0))"
    if k: "k \<in> set (linkEntries st')" for k
  proof -
    from k keys obtain l where l: "linkMap st' k = Some l" by auto
    have "(standaloneRepo (content l) \<noteq> None) = (k \<in> set (linkEntries ?st0))"
    proof (cases "linkMap ?st0 k")
      case None
      then have "k \<notin> set (linkEntries ?st0)"
        using wfState_entry [OF w0, of k] by auto
      moreover have "standaloneRepo (content l) = None"
        using fin' [of k] None l by (auto simp: finalLink_def split: list.splits)
      ultimately show ?thesis by simp
    next
      case (Some l0)
      then have "linkMap st' k = Some (addRefs ?g ?n l0 (refsOf k ?F))"
        using fin' [of k] by (simp add: finalLink_def)
      then show ?thesis
        using r0 Some l by (simp add: resetState_def)
    qed
    then show ?thesis
      using l ch_standalone [OF k l] by simp
  qed
  have "filter (\<lambda>k. standaloneRepo (content (the (?m k))) \<noteq> None) (linkEntries st')
      = filter (\<lambda>k. k \<in> set (linkEntries ?st0)) (linkEntries st')"
    by (rule filter_cong [OF refl]) (rule sa)
  also have "\<dots> = linkEntries ?st0"
  proof -
    have "set (newTargets (set (linkEntries ?st0)) (referencedTargets ?F)) \<inter> set (linkEntries ?st0) = {}"
      using d' ent' by auto
    then have "filter (\<lambda>k. k \<in> set (linkEntries ?st0))
        (newTargets (set (linkEntries ?st0)) (referencedTargets ?F)) = []"
      by (auto simp: filter_empty_conv)
    then show ?thesis
      unfolding ent' by simp
  qed
  finally have standalone:
    "filter (\<lambda>k. standaloneRepo (content (the (?m k))) \<noteq> None) (linkEntries st')
       = linkEntries ?st0" .

  \<comment> \<open>the second pass: its first loop\<close>
  let ?s0 = "existingLinksLoop (List.map_filter ?m (linkEntries st')) initialState"
  have ws0: "wfState ?s0" by (rule wfState_after_existing)
  have x: "linkEntries ?s0 = linkEntries ?st0"
    "\<And>t. linkMap ?s0 t = (if t \<in> set (linkEntries st') then map_option resetLink (?m t)
                           else None)"
    using existingLinksLoop_distinct [OF d' keys2, of initialState] standalone
    by (simp_all add: initialState_def)

  \<comment> \<open>the second pass: its second loop\<close>
  obtain s' where run2: "fileEntriesLoop ?g ?n ?F ?s0 = Inr s'"
    using fileEntriesLoop_returns [OF noproto] by blast
  have ent2: "linkEntries s' = linkEntries st'"
    using fileEntriesLoop_entries [OF ws0 run2] ent' x(1) by simp
  have fin2: "linkMap s' t = map_option (\<lambda>l. l\<lparr>idx := i t\<rparr>) (linkMap st' t)"
    if t: "t \<in> set (linkEntries st')" for t
  proof -
    from t keys obtain l' where l': "linkMap st' t = Some l'" by auto
    have "linkMap s' t = Some (addRefs ?g ?n (resetLink (f t l')) (refsOf t ?F))"
      using fileEntriesLoop_final [OF ws0 run2, of t] x(2) [of t] t l' by (simp add: finalLink_def)
    then have 2: "linkMap s' t = Some ((addRefs ?g ?n (resetLink l') (refsOf t ?F))\<lparr>idx := i t\<rparr>)"
      by (simp add: ch [OF t l'] addRefs_idx)
    have "addRefs ?g ?n (resetLink l') (refsOf t ?F) = l'"
    proof (cases "linkMap ?st0 t")
      case (Some l0)
      then have "l' = addRefs ?g ?n l0 (refsOf t ?F)"
        using fin' [of t] l' by (simp add: finalLink_def)
      moreover have "resetLink l0 = l0"
        using r0 Some by (simp add: resetState_def)
      ultimately show ?thesis
        by simp
    next
      case None
      then obtain e c rs where rs: "refsOf t ?F = (e, c) # rs"
        and l1: "l' = addRefs ?g ?n (newLinkEntry e c t) rs"
        using fin' [of t] l' by (auto simp: finalLink_def split: list.splits)
      have "(e, c) \<in> set (refsOf t ?F)"
        using rs by simp
      then have "e \<in> set ?F"
        using refsOf_mem by blast
      then have "?n (labels e) = labels e"
        using norm by blast
      then show ?thesis
        using l1 rs by (simp add: addReference_reset_new)
    qed
    then show ?thesis
      using 2 l' by simp
  qed
  have "List.map_filter (linkMap s') (linkEntries s')
      = List.map_filter (\<lambda>k. map_option (\<lambda>l. l\<lparr>idx := i k\<rparr>) (linkMap st' k)) (linkEntries st')"
    unfolding ent2 using fin2 by (intro map_filter_cong_on) simp
  also have "\<dots> = map (\<lambda>l. l\<lparr>idx := i (target (content l))\<rparr>) linkEntries1"
    unfolding L1 by (rule map_filter_map_option [OF keys0])
  finally show ?thesis
    unfolding given by (simp add: recomputeLinkEntries_unfold run2)
qed

lemma recomputeLinkEntries_second_pass:
  fixes getRepoId :: "Repo \<Rightarrow> 'i" and normalizeLabels :: "jsstring list \<Rightarrow> jsstring list"
  assumes norm: "\<forall>e \<in> set fileEntries. normalizeLabels (labels e) = labels e"
    and first: "recomputeLinkEntries getRepoId normalizeLabels fileEntries existingLinkEntries
                  = Inr linkEntries1"
  shows "recomputeLinkEntries getRepoId normalizeLabels fileEntries linkEntries1 = Inr linkEntries1"
proof -
  let ?h = "\<lambda>l. target (content l)"
  let ?i = "\<lambda>t. idx (linkEntries1 ! assignedIdx (map ?h linkEntries1) t)"
  have d: "distinct (map ?h linkEntries1)"
    by (rule recomputeLinkEntries_distinct_targets [OF first])
  have i: "?i (?h l) = idx l" if "l \<in> set linkEntries1" for l
  proof -
    from that obtain k where k: "k < length linkEntries1" "l = linkEntries1 ! k"
      by (auto simp: in_set_conv_nth)
    have "assignedIdx (map ?h linkEntries1) (map ?h linkEntries1 ! k) = k"
      by (rule assignedIdx_of_nth [OF d]) (simp add: k(1))
    then show ?thesis
      using k by simp
  qed
  have "\<forall>l \<in> set linkEntries1. resetLink l = (resetLink l)\<lparr>idx := ?i (?h l)\<rparr>"
  proof
    fix l assume "l \<in> set linkEntries1"
    then have "?i (?h l) = idx (resetLink l)"
      using i by simp
    then show "resetLink l = (resetLink l)\<lparr>idx := ?i (?h l)\<rparr>"
      by simp
  qed
  from recomputeLinkEntries_second_pass_reset [OF norm first, of "\<lambda>t l. l" ?i, OF this]
  have "recomputeLinkEntries getRepoId normalizeLabels fileEntries (map (\<lambda>l. l) linkEntries1)
      = Inr (map (\<lambda>l. l\<lparr>idx := ?i (?h l)\<rparr>) linkEntries1)" .
  moreover have "map (\<lambda>l. l\<lparr>idx := ?i (?h l)\<rparr>) linkEntries1 = map (\<lambda>l. l) linkEntries1"
    by (rule map_cong [OF refl]) (simp add: i)
  ultimately show ?thesis
    by simp
qed

subsection \<open>The order of the sorted array\<close>

text \<open>
  \<open>sortedOrder\<close> is the order in which \<open>sortAndIndexEntries\<close> leaves the objects: a
  permutation of their names, and the object at a position of the sorted array is the one
  that \<open>sortedOrder\<close> names there.
\<close>

lemma insertSorted_map_snd:
  "map snd (insertSorted (\<lambda>a b. c (snd a) (snd b)) p qs) = insertSorted c (snd p) (map snd qs)"
  by (induction qs) simp_all

lemma arraySort_map_snd:
  "map snd (arraySort (\<lambda>a b. c (snd a) (snd b)) ps) = arraySort c (map snd ps)"
  by (induction ps) (simp_all add: arraySort_def insertSorted_map_snd)

lemma mset_sortedOrder: "mset (sortedOrder c xs) = mset [0..<length xs]"
proof -
  have "mset (sortedOrder c xs) = mset (map fst (enumerate 0 xs))"
    unfolding sortedOrder_def mset_map by (simp add: mset_arraySort)
  then show ?thesis by simp
qed

lemma set_sortedOrder: "set (sortedOrder c xs) = {0..<length xs}"
  using mset_eq_setD [OF mset_sortedOrder [of c xs]] by simp

lemma length_sortedOrder: "length (sortedOrder c xs) = length xs"
  using mset_eq_length [OF mset_sortedOrder [of c xs]] by simp

lemma distinct_sortedOrder: "distinct (sortedOrder c xs)"
  using mset_eq_imp_distinct_iff [OF mset_sortedOrder [of c xs]] by simp

lemma arraySort_nth_sortedOrder:
  assumes "p < length xs"
  shows "arraySort c xs ! p = xs ! (sortedOrder c xs ! p)"
proof -
  let ?t = "arraySort (\<lambda>a b. c (snd a) (snd b)) (enumerate 0 xs)"
  have len: "length ?t = length xs"
    using mset_eq_length [OF mset_arraySort [of "\<lambda>a b. c (snd a) (snd b)" "enumerate 0 xs"]] by simp
  have "set ?t = set (enumerate 0 xs)"
    using mset_eq_setD [OF mset_arraySort [of "\<lambda>a b. c (snd a) (snd b)" "enumerate 0 xs"]] .
  then have "?t ! p \<in> set (enumerate 0 xs)"
    using assms len by (metis nth_mem)
  then have e: "snd (?t ! p) = xs ! fst (?t ! p)"
    by (simp add: in_set_enumerate_eq)
  have "arraySort c xs = map snd ?t"
    by (simp add: arraySort_map_snd)
  then have "arraySort c xs ! p = snd (?t ! p)"
    using assms len by simp
  also have "\<dots> = xs ! (sortedOrder c xs ! p)"
    using e assms len by (simp add: sortedOrder_def)
  finally show ?thesis .
qed

lemma length_arraySort [simp]: "length (arraySort c xs) = length xs"
  using mset_eq_length [OF mset_arraySort [of c xs]] .

lemma nth_assignIdx:
  "p < length xs \<Longrightarrow> assignIdx n xs ! p = (xs ! p)\<lparr>idx := Some (n + p)\<rparr>"
  by (simp add: assignIdx_enumerate nth_enumerate_eq)

lemma nth_sortAndIndexEntries:
  assumes "a < length entries"
  shows "assignedIdx (sortedOrder (compareEntries toLowerCase localeCompare) entries) a < length entries \<and>
     sortAndIndexEntries toLowerCase localeCompare entries
       ! assignedIdx (sortedOrder (compareEntries toLowerCase localeCompare) entries) a
     = (entries ! a)
         \<lparr>idx := Some (assignedIdx (sortedOrder (compareEntries toLowerCase localeCompare) entries) a)\<rparr>"
proof -
  let ?c = "compareEntries toLowerCase localeCompare"
  let ?order = "sortedOrder ?c entries"
  let ?p = "assignedIdx ?order a"
  have "a \<in> set ?order"
    using assms by (simp add: set_sortedOrder)
  from assignedIdx_nth [OF this] have p: "?p < length entries" "?order ! ?p = a"
    by (simp_all add: length_sortedOrder)
  have "arraySort ?c entries ! ?p = entries ! a"
    using arraySort_nth_sortedOrder [OF p(1), of ?c] p(2) by simp
  then show ?thesis
    using p(1) by (simp add: sortAndIndexEntries_def nth_assignIdx)
qed

lemma length_sortAndIndexEntries [simp]:
  "length (sortAndIndexEntries toLowerCase localeCompare entries) = length entries"
  by (simp add: sortAndIndexEntries_def assignIdx_enumerate)

text \<open>The sort does not read the \<open>idx\<close> of an entry.\<close>

lemma insertSorted_rel:
  assumes "\<And>x y x' y'. R x y \<Longrightarrow> R x' y' \<Longrightarrow> c x x' = c' y y'"
  shows "R x y \<Longrightarrow> list_all2 R xs ys \<Longrightarrow>
         list_all2 R (insertSorted c x xs) (insertSorted c' y ys)"
proof (induction xs arbitrary: ys)
  case Nil
  then show ?case by simp
next
  case (Cons a xs)
  from Cons.prems(2) obtain b ys' where ys: "ys = b # ys'" "R a b" "list_all2 R xs ys'"
    by (auto simp: list_all2_Cons1)
  show ?case
    using Cons.IH [OF Cons.prems(1) ys(3)] assms [OF Cons.prems(1) ys(2)] ys Cons.prems(1)
    by simp
qed

lemma arraySort_rel:
  assumes "\<And>x y x' y'. R x y \<Longrightarrow> R x' y' \<Longrightarrow> c x x' = c' y y'"
  shows "list_all2 R xs ys \<Longrightarrow> list_all2 R (arraySort c xs) (arraySort c' ys)"
proof (induction xs arbitrary: ys)
  case Nil
  then show ?case by (simp add: arraySort_def)
next
  case (Cons a xs)
  from Cons.prems obtain b ys' where ys: "ys = b # ys'" "R a b" "list_all2 R xs ys'"
    by (auto simp: list_all2_Cons1)
  have "list_all2 R (insertSorted c a (arraySort c xs)) (insertSorted c' b (arraySort c' ys'))"
    by (rule insertSorted_rel [OF assms ys(2) Cons.IH [OF ys(3)]])
  then show ?case
    by (simp add: ys(1) arraySort_def)
qed

lemma sameButIdx_fields:
  assumes "sameButIdx a b"
  shows "title a = title b" "labels a = labels b" "content a = content b"
proof -
  have "title a = title (a\<lparr>idx := None\<rparr>)" "labels a = labels (a\<lparr>idx := None\<rparr>)"
    "content a = content (a\<lparr>idx := None\<rparr>)"
    "title b = title (b\<lparr>idx := None\<rparr>)" "labels b = labels (b\<lparr>idx := None\<rparr>)"
    "content b = content (b\<lparr>idx := None\<rparr>)"
    by simp_all
  then show "title a = title b" "labels a = labels b" "content a = content b"
    using assms unfolding sameButIdx_def by metis+
qed

lemma sameButIdx_compareEntries:
  "sameButIdx x y \<Longrightarrow> sameButIdx x' y' \<Longrightarrow>
   compareEntries toLowerCase localeCompare x x' = compareEntries toLowerCase localeCompare y y'"
proof -
  assume a: "sameButIdx x y" "sameButIdx x' y'"
  have "title x = title (x\<lparr>idx := None\<rparr>)" "content x = content (x\<lparr>idx := None\<rparr>)"
    "title x' = title (x'\<lparr>idx := None\<rparr>)" "content x' = content (x'\<lparr>idx := None\<rparr>)"
    "title y = title (y\<lparr>idx := None\<rparr>)" "content y = content (y\<lparr>idx := None\<rparr>)"
    "title y' = title (y'\<lparr>idx := None\<rparr>)" "content y' = content (y'\<lparr>idx := None\<rparr>)"
    by simp_all
  then have "title x = title y" "content x = content y" "title x' = title y'" "content x' = content y'"
    using a unfolding sameButIdx_def by metis+
  then show ?thesis
    by (simp add: compareEntries_def)
qed

lemma enumerate_rel:
  "list_all2 R xs ys \<Longrightarrow>
   list_all2 (\<lambda>a b. fst a = fst b \<and> R (snd a) (snd b)) (enumerate n xs) (enumerate n ys)"
  by (induction xs ys arbitrary: n rule: list_all2_induct) simp_all

lemma sortedOrder_sameButIdx:
  assumes "list_all2 sameButIdx xs ys"
  shows "sortedOrder (compareEntries toLowerCase localeCompare) xs
       = sortedOrder (compareEntries toLowerCase localeCompare) ys"
proof -
  let ?c = "\<lambda>a b. compareEntries toLowerCase localeCompare (snd a) (snd b)"
  let ?R = "\<lambda>a b. fst a = fst b \<and> sameButIdx (snd a) (snd b)"
  have "list_all2 ?R (arraySort ?c (enumerate 0 xs)) (arraySort ?c (enumerate 0 ys))"
    by (rule arraySort_rel [where R = ?R, OF _ enumerate_rel [OF assms]])
       (simp add: sameButIdx_compareEntries)
  then have "list_all2 (\<lambda>a b. fst a = fst b) (arraySort ?c (enumerate 0 xs)) (arraySort ?c (enumerate 0 ys))"
    by (rule list_all2_mono) simp
  then have "map fst (arraySort ?c (enumerate 0 xs)) = map fst (arraySort ?c (enumerate 0 ys))"
    by (simp add: list_all2_conv_all_nth list_eq_iff_nth_eq)
  then show ?thesis
    by (simp add: sortedOrder_def)
qed

lemma assignIdx_sameButIdx:
  "list_all2 sameButIdx xs ys \<Longrightarrow> assignIdx n xs = assignIdx n ys"
proof (induction xs ys arbitrary: n rule: list_all2_induct)
  case Nil
  show ?case by simp
next
  case (Cons x xs y ys)
  have "x\<lparr>idx := Some n\<rparr> = (x\<lparr>idx := None\<rparr>)\<lparr>idx := Some n\<rparr>"
    "y\<lparr>idx := Some n\<rparr> = (y\<lparr>idx := None\<rparr>)\<lparr>idx := Some n\<rparr>"
    by simp_all
  then have "x\<lparr>idx := Some n\<rparr> = y\<lparr>idx := Some n\<rparr>"
    using Cons.hyps(1) unfolding sameButIdx_def by metis
  then show ?case
    using Cons.IH by simp
qed

lemma sortAndIndexEntries_sameButIdx:
  assumes "list_all2 sameButIdx xs ys"
  shows "sortAndIndexEntries toLowerCase localeCompare xs
       = sortAndIndexEntries toLowerCase localeCompare ys"
  unfolding sortAndIndexEntries_def
  by (rule assignIdx_sameButIdx)
     (rule arraySort_rel [where R = sameButIdx, OF sameButIdx_compareEntries assms])

subsection \<open>The objects that the links and the entries share\<close>

lemma length_fileObjects [simp]: "length (fileObjects F) = length F"
  by (simp add: fileObjects_def)

lemma nth_fileObjects:
  "a < length F \<Longrightarrow> fileObjects F ! a = (F ! a)\<lparr>idx := Some a\<rparr>"
  by (simp add: fileObjects_def nth_enumerate_eq)

lemma labels_fileObjects:
  assumes "\<forall>e \<in> set F. n (labels e) = labels e"
  shows "\<forall>e \<in> set (fileObjects F). n (labels e) = labels e"
proof
  fix e assume "e \<in> set (fileObjects F)"
  then obtain a where "a < length F" "e = (F ! a)\<lparr>idx := Some a\<rparr>"
    by (auto simp: in_set_conv_nth nth_fileObjects)
  then show "n (labels e) = labels e"
    using assms by simp
qed

lemma map_enumerate_by_key:
  assumes "distinct (map h xs)"
  shows "map (\<lambda>(k, x). G k x) (enumerate 0 xs) = map (\<lambda>x. G (assignedIdx (map h xs) (h x)) x) xs"
proof (rule nth_equalityI)
  show "length (map (\<lambda>(k, x). G k x) (enumerate 0 xs))
      = length (map (\<lambda>x. G (assignedIdx (map h xs) (h x)) x) xs)"
    by simp
next
  fix k assume "k < length (map (\<lambda>(k, x). G k x) (enumerate 0 xs))"
  then have k: "k < length xs" by simp
  have "assignedIdx (map h xs) (map h xs ! k) = k"
    by (rule assignedIdx_of_nth [OF assms]) (simp add: k)
  then show "map (\<lambda>(k, x). G k x) (enumerate 0 xs) ! k
      = map (\<lambda>x. G (assignedIdx (map h xs) (h x)) x) xs ! k"
    using k by (simp add: nth_enumerate_eq)
qed

lemma resetLink_indexedLink:
  "resetLink (indexedLink order a l) = (resetLink l)\<lparr>idx := Some (assignedIdx order a)\<rparr>"
  by (simp add: resetLink_def indexedLink_def)

lemma indexedLink_idx [simp]: "indexedLink order a (l\<lparr>idx := j\<rparr>) = indexedLink order a l"
  by (simp add: indexedLink_def)

lemma sameButIdx_refl [simp]: "sameButIdx e e"
  by (simp add: sameButIdx_def)

lemma sameButIdx_entryOfLink [simp]: "sameButIdx (entryOfLink l) (entryOfLink (l\<lparr>idx := j\<rparr>))"
  by (simp add: sameButIdx_def entryOfLink_def)

lemma referencedBy_addRefs:
  "referencedBy (content (addRefs g n l rs)) = referencedBy (content l) @ map fst rs"
  by (induction rs arbitrary: l) (auto simp: addReference_def)

lemma referencedBy_resetLink [simp]: "referencedBy (content (resetLink l)) = []"
  by (simp add: resetLink_def)

lemma recomputeLinkEntries_referencedBy:
  assumes "recomputeLinkEntries g n F L = Inr result" and "l \<in> set result"
  shows "referencedBy (content l) = map fst (refsOf (target (content l)) F)"
proof -
  let ?st0 = "existingLinksLoop L initialState"
  have w0: "wfState ?st0" by (rule wfState_after_existing)
  have r0: "resetState ?st0"
    by (rule resetState_existingLinksLoop [OF wfState_initial resetState_initial])
  from assms(1) obtain st' where run: "fileEntriesLoop g n F ?st0 = Inr st'"
    and res: "result = List.map_filter (linkMap st') (linkEntries st')"
    by (auto simp: recomputeLinkEntries_unfold split: sum.splits)
  have w': "wfState st'" by (rule wfState_fileEntriesLoop [OF w0 run])
  from assms(2) obtain k where k: "linkMap st' k = Some l"
    unfolding res map_filter_mem by blast
  then have t: "target (content l) = k"
    using w' by (simp add: wfState_def)
  have fin: "linkMap st' k = finalLink g n (linkMap ?st0 k) k (refsOf k F)"
    by (rule fileEntriesLoop_final [OF w0 run])
  show ?thesis
  proof (cases "linkMap ?st0 k")
    case None
    then obtain e c rs where rs: "refsOf k F = (e, c) # rs"
      and l1: "l = addRefs g n (newLinkEntry e c k) rs"
      using fin k by (auto simp: finalLink_def split: list.splits)
    have "referencedBy (content (addRefs g n (newLinkEntry e c k) rs)) = e # map fst rs"
      by (simp add: referencedBy_addRefs newLinkEntry_def recomputeKeyLink_def)
    then show ?thesis
      using l1 rs t by simp
  next
    case (Some l0)
    then have "resetLink l0 = l0"
      using r0 by (simp add: resetState_def)
    then have "referencedBy (content l0) = []"
      using referencedBy_resetLink [of l0] by simp
    then show ?thesis
      using fin k t Some by (simp add: finalLink_def referencedBy_addRefs)
  qed
qed

text \<open>
  A link that \<open>recomputeEntries\<close> returns is, with its \<open>idx\<close>, the entry at that
  position of the returned entries, and so is every file entry that it references.
\<close>

lemma recomputeEntries_shares_objects:
  fixes g :: "Repo \<Rightarrow> 'i" and n :: "jsstring list \<Rightarrow> jsstring list"
  assumes "recomputeEntries g n toLowerCase localeCompare fileEntries existingLinkEntries
             = Inr (linkEntries1, entries1)"
  shows "length entries1 = length fileEntries + length linkEntries1"
    and "\<forall>link \<in> set linkEntries1.
           (\<exists>p. idx link = Some p \<and> p < length entries1 \<and> entries1 ! p = entryOfLink link) \<and>
           (\<forall>file \<in> set (referencedBy (content link)).
              \<exists>p. idx file = Some p \<and> p < length entries1 \<and> entries1 ! p = entryOfFile file)"
proof -
  let ?F = "fileObjects fileEntries"
  let ?c = "compareEntries toLowerCase localeCompare"
  from assms obtain raw where raw: "recomputeLinkEntries g n ?F existingLinkEntries = Inr raw"
    by (auto simp: recomputeEntries_def split: sum.splits)
  let ?es = "map entryOfFile ?F @ map entryOfLink raw"
  let ?order = "sortedOrder ?c ?es"
  from assms raw have l1: "linkEntries1
      = map (\<lambda>(k, link). indexedLink ?order (length fileEntries + k) link) (enumerate 0 raw)"
    and e1: "entries1 = map (indexedEntry ?order) (sortAndIndexEntries toLowerCase localeCompare ?es)"
    by (simp_all add: recomputeEntries_def Let_def)
  show len: "length entries1 = length fileEntries + length linkEntries1"
    by (simp add: l1 e1)
  have at: "assignedIdx ?order a < length entries1 \<and>
      entries1 ! assignedIdx ?order a = indexedEntry ?order ((?es ! a)\<lparr>idx := Some (assignedIdx ?order a)\<rparr>)"
    if "a < length ?es" for a
    using nth_sortAndIndexEntries [OF that, of toLowerCase localeCompare]
    by (simp add: e1)
  show "\<forall>link \<in> set linkEntries1.
           (\<exists>p. idx link = Some p \<and> p < length entries1 \<and> entries1 ! p = entryOfLink link) \<and>
           (\<forall>file \<in> set (referencedBy (content link)).
              \<exists>p. idx file = Some p \<and> p < length entries1 \<and> entries1 ! p = entryOfFile file)"
  proof
    fix link assume "link \<in> set linkEntries1"
    then obtain k where k: "k < length raw"
      and link: "link = indexedLink ?order (length fileEntries + k) (raw ! k)"
      unfolding l1 by (auto simp: in_set_conv_nth nth_enumerate_eq)
    have 1: "\<exists>p. idx link = Some p \<and> p < length entries1 \<and> entries1 ! p = entryOfLink link"
    proof (intro exI conjI)
      show "idx link = Some (assignedIdx ?order (length fileEntries + k))"
        by (simp add: link indexedLink_def)
      have a: "length fileEntries + k < length ?es"
        using k by simp
      from at [OF a] show "assignedIdx ?order (length fileEntries + k) < length entries1"
        by simp
      have "?es ! (length fileEntries + k) = entryOfLink (raw ! k)"
        using k by (simp add: nth_append)
      then show "entries1 ! assignedIdx ?order (length fileEntries + k) = entryOfLink link"
        using at [OF a] by (simp add: link indexedLink_def indexedEntry_def entryOfLink_def)
    qed
    have 2: "\<exists>p. idx fileEntry = Some p \<and> p < length entries1 \<and> entries1 ! p = entryOfFile fileEntry"
      if "fileEntry \<in> set (referencedBy (content link))" for fileEntry
    proof -
      from that obtain r where r: "r \<in> set (referencedBy (content (raw ! k)))"
        and fe: "fileEntry = indexedFile ?order r"
        by (auto simp: link indexedLink_def)
      have "raw ! k \<in> set raw"
        using k by simp
      from recomputeLinkEntries_referencedBy [OF raw this] r
      have "r \<in> set ?F"
        using refsOf_mem by fastforce
      then obtain a where a: "a < length fileEntries" and ra: "r = (fileEntries ! a)\<lparr>idx := Some a\<rparr>"
        by (auto simp: in_set_conv_nth nth_fileObjects)
      have a': "a < length ?es"
        using a by simp
      have "?es ! a = entryOfFile r"
        using a by (simp add: nth_append nth_fileObjects ra)
      then have "entries1 ! assignedIdx ?order a = entryOfFile fileEntry"
        using at [OF a'] by (simp add: fe ra indexedFile_def indexedEntry_def entryOfFile_def)
      moreover have "idx fileEntry = Some (assignedIdx ?order a)"
        by (simp add: fe ra indexedFile_def)
      ultimately show ?thesis
        using at [OF a'] by blast
    qed
    from 1 2 show "(\<exists>p. idx link = Some p \<and> p < length entries1 \<and> entries1 ! p = entryOfLink link) \<and>
           (\<forall>file \<in> set (referencedBy (content link)).
              \<exists>p. idx file = Some p \<and> p < length entries1 \<and> entries1 ! p = entryOfFile file)"
      by blast
  qed
qed

lemma sameButFileIdx_refl [simp]: "sameButFileIdx l l"
  by (simp add: sameButFileIdx_def list_all2_same)

lemma referencedTargets_sameButIdx:
  "list_all2 sameButIdx F F' \<Longrightarrow> referencedTargets F = referencedTargets F'"
  by (induction F F' rule: list_all2_induct)
     (simp_all add: referencedTargets_def sameButIdx_fields(3))

lemma refsOf_sameButIdx:
  "list_all2 sameButIdx F F' \<Longrightarrow>
   list_all2 (\<lambda>r r'. sameButIdx (fst r) (fst r') \<and> snd r = snd r') (refsOf t F) (refsOf t F')"
proof (induction F F' rule: list_all2_induct)
  case Nil
  show ?case by simp
next
  case (Cons e F e' F')
  have c: "content e = content e'"
    by (rule sameButIdx_fields(3) [OF Cons.hyps(1)])
  show ?case
    using Cons.IH Cons.hyps(1) unfolding refsOf.simps c
    by (intro list_all2_appendI) (auto split: ContentFile.splits simp: list_all2_conv_all_nth)
qed

lemma addReference_sameButFileIdx:
  assumes "sameButIdx e e'" "sameButFileIdx l l'"
  shows "sameButFileIdx (addReference g n e c l) (addReference g n e' c l')"
proof -
  obtain t p la co k i where l: "l = \<lparr>title = t, priority = p, labels = la, content = co, key = k, idx = i\<rparr>"
    by (cases l) auto
  obtain t' p' la' co' k' i' where l': "l' = \<lparr>title = t', priority = p', labels = la', content = co', key = k', idx = i'\<rparr>"
    by (cases l') auto
  obtain ta rb sr rr rl ol where co: "co = \<lparr>target = ta, referencedBy = rb, standaloneRepo = sr,
      refRepos = rr, refLocations = rl, ownLabels = ol\<rparr>"
    by (cases co) auto
  obtain ta' rb' sr' rr' rl' ol' where co': "co' = \<lparr>target = ta', referencedBy = rb', standaloneRepo = sr',
      refRepos = rr', refLocations = rl', ownLabels = ol'\<rparr>"
    by (cases co') auto
  have lab: "labels e = labels e'"
    by (rule sameButIdx_fields(2) [OF assms(1)])
  show ?thesis
    using assms lab unfolding l l' co co'
    by (simp add: sameButFileIdx_def addReference_def list_all2_appendI)
qed

lemma addRefs_sameButFileIdx:
  "list_all2 (\<lambda>r r'. sameButIdx (fst r) (fst r') \<and> snd r = snd r') rs rs' \<Longrightarrow>
   sameButFileIdx l l' \<Longrightarrow> sameButFileIdx (addRefs g n l rs) (addRefs g n l' rs')"
proof (induction rs rs' arbitrary: l l' rule: list_all2_induct)
  case Nil
  then show ?case by simp
next
  case (Cons r rs r' rs')
  obtain e c where r: "r = (e, c)" by (cases r)
  obtain e' c' where r': "r' = (e', c')" by (cases r')
  from Cons.hyps(1) have ee: "sameButIdx e e'" and cc: "c' = c"
    by (simp_all add: r r')
  show ?case
    unfolding r r' cc addRefs_Cons
    by (rule Cons.IH [OF addReference_sameButFileIdx [OF ee Cons.prems]])
qed

lemma newLinkEntry_sameButFileIdx:
  "sameButIdx e e' \<Longrightarrow> sameButFileIdx (newLinkEntry e c t) (newLinkEntry e' c t)"
  by (simp add: sameButFileIdx_def newLinkEntry_def recomputeKeyLink_def sameButIdx_fields(2))

lemma finalLink_sameButFileIdx:
  assumes "list_all2 (\<lambda>r r'. sameButIdx (fst r) (fst r') \<and> snd r = snd r') rs rs'"
  shows "rel_option sameButFileIdx (finalLink g n m t rs) (finalLink g n m t rs')"
proof (cases m)
  case (Some l)
  then show ?thesis
    using addRefs_sameButFileIdx [OF assms sameButFileIdx_refl] by (simp add: finalLink_def)
next
  case None
  show ?thesis
  proof (cases rs)
    case Nil
    then show ?thesis
      using assms by (simp add: finalLink_def None)
  next
    case (Cons r rs0)
    with assms obtain r' rs0' where rs': "rs' = r' # rs0'"
      and rr: "sameButIdx (fst r) (fst r') \<and> snd r = snd r'"
      and rest: "list_all2 (\<lambda>r r'. sameButIdx (fst r) (fst r') \<and> snd r = snd r') rs0 rs0'"
      by (auto simp: list_all2_Cons1)
    obtain e c where r: "r = (e, c)" by (cases r)
    obtain e' c' where r': "r' = (e', c')" by (cases r')
    from rr have ee: "sameButIdx e e'" and cc: "c' = c"
      by (simp_all add: r r')
    show ?thesis
      using addRefs_sameButFileIdx [OF rest newLinkEntry_sameButFileIdx [OF ee]]
      by (simp add: finalLink_def None Cons rs' r r' cc)
  qed
qed

lemma map_filter_rel:
  "\<forall>k \<in> set ks. rel_option R (m k) (m' k) \<Longrightarrow>
   list_all2 R (List.map_filter m ks) (List.map_filter m' ks)"
proof (induction ks)
  case Nil
  show ?case by (simp add: List.map_filter_simps)
next
  case (Cons k ks)
  then have "rel_option R (m k) (m' k)" by simp
  then show ?case
    using Cons by (cases "m k"; cases "m' k") (simp_all add: List.map_filter_simps)
qed

text \<open>
  \<open>recomputeLinkEntries\<close> does not read the \<open>idx\<close> of a file entry: on file entries that
  differ in their \<open>idx\<close> only, it throws in both cases or returns links that differ only in
  the \<open>idx\<close> of the entries that they reference.
\<close>

lemma recomputeLinkEntries_ignores_file_idx:
  assumes "list_all2 sameButIdx F F'"
  shows "rel_sum (=) (list_all2 sameButFileIdx)
           (recomputeLinkEntries g n F L) (recomputeLinkEntries g n F' L)"
proof -
  let ?st0 = "existingLinksLoop L initialState"
  have w0: "wfState ?st0" by (rule wfState_after_existing)
  have targets: "referencedTargets F = referencedTargets F'"
    by (rule referencedTargets_sameButIdx [OF assms])
  show ?thesis
  proof (cases "\<forall>t \<in> set (referencedTargets F). t \<notin> set objectPrototypeKeys")
    case True
    obtain st where st: "fileEntriesLoop g n F ?st0 = Inr st"
      using fileEntriesLoop_returns [OF True] by blast
    obtain st' where st': "fileEntriesLoop g n F' ?st0 = Inr st'"
      using fileEntriesLoop_returns [OF True [unfolded targets]] by blast
    have e: "linkEntries st' = linkEntries st"
      using fileEntriesLoop_entries [OF w0 st] fileEntriesLoop_entries [OF w0 st'] targets by simp
    have "rel_option sameButFileIdx (linkMap st t) (linkMap st' t)" for t
      unfolding fileEntriesLoop_final [OF w0 st] fileEntriesLoop_final [OF w0 st']
      by (rule finalLink_sameButFileIdx [OF refsOf_sameButIdx [OF assms]])
    then have "list_all2 sameButFileIdx (List.map_filter (linkMap st) (linkEntries st))
        (List.map_filter (linkMap st') (linkEntries st))"
      by (intro map_filter_rel) simp
    then show ?thesis
      by (simp add: recomputeLinkEntries_unfold st st' e)
  next
    case False
    have "\<exists>x. fileEntriesLoop g n F ?st0 = Inl x"
      using fileEntriesLoop_no_prototype_key [OF w0, of g n F] False
      by (cases "fileEntriesLoop g n F ?st0") auto
    moreover have "\<exists>x. fileEntriesLoop g n F' ?st0 = Inl x"
      using fileEntriesLoop_no_prototype_key [OF w0, of g n F'] False targets
      by (cases "fileEntriesLoop g n F' ?st0") auto
    ultimately obtain x x' where "fileEntriesLoop g n F ?st0 = Inl x"
      "fileEntriesLoop g n F' ?st0 = Inl x'"
      by blast
    moreover have "x = x'"
      by (cases x; cases x') simp
    ultimately show ?thesis
      by (simp add: recomputeLinkEntries_unfold)
  qed
qed

lemma fileObjects_sameButIdx: "list_all2 sameButIdx F (fileObjects F)"
  by (simp add: list_all2_conv_all_nth nth_fileObjects sameButIdx_def)

lemma recomputeLinkEntries_fileObjects:
  "rel_sum (=) (list_all2 sameButFileIdx)
     (recomputeLinkEntries g n F L) (recomputeLinkEntries g n (fileObjects F) L)"
  by (rule recomputeLinkEntries_ignores_file_idx [OF fileObjects_sameButIdx])

subsection \<open>Idempotence of recomputeEntries\<close>

text \<open>
  When \<open>normalizeLabels\<close> leaves the labels of every file entry as they are, a second pass
  of \<open>recomputeEntries\<close> over the links of the first returns the same links and the same
  entries. So the only way for the two passes to differ is the one of the failing input of
  C8 below: labels of a note that \<open>normalizeLabels\<close> changes.
\<close>

lemma recomputeEntries_second_pass:
  fixes g :: "Repo \<Rightarrow> 'i" and n :: "jsstring list \<Rightarrow> jsstring list"
  assumes norm: "\<forall>e \<in> set fileEntries. n (labels e) = labels e"
    and first: "recomputeEntries g n toLowerCase localeCompare fileEntries
                  existingLinkEntries = Inr (linkEntries1, entries1)"
  shows "recomputeEntries g n toLowerCase localeCompare fileEntries
           linkEntries1 = Inr (linkEntries1, entries1)"
proof -
  let ?F = "fileObjects fileEntries"
  let ?c = "compareEntries toLowerCase localeCompare"
  from first obtain raw where raw: "recomputeLinkEntries g n ?F existingLinkEntries = Inr raw"
    by (auto simp: recomputeEntries_def split: sum.splits)
  let ?es = "map entryOfFile ?F @ map entryOfLink raw"
  let ?order = "sortedOrder ?c ?es"
  from first raw have l1: "linkEntries1
      = map (\<lambda>(k, link). indexedLink ?order (length fileEntries + k) link) (enumerate 0 raw)"
    and e1: "entries1 = map (indexedEntry ?order) (sortAndIndexEntries toLowerCase localeCompare ?es)"
    by (simp_all add: recomputeEntries_def Let_def)
  let ?h = "\<lambda>l. target (content l)"
  let ?f = "\<lambda>t. indexedLink ?order (length fileEntries + assignedIdx (map ?h raw) t)"
  let ?i = "\<lambda>t. Some (assignedIdx ?order (length fileEntries + assignedIdx (map ?h raw) t))"
  have d: "distinct (map ?h raw)"
    by (rule recomputeLinkEntries_distinct_targets [OF raw])
  have given: "linkEntries1 = map (\<lambda>l. ?f (?h l) l) raw"
    unfolding l1
    by (rule map_enumerate_by_key [OF d, of "\<lambda>k. indexedLink ?order (length fileEntries + k)"])
  let ?raw2 = "map (\<lambda>l. l\<lparr>idx := ?i (?h l)\<rparr>) raw"
  have raw2: "recomputeLinkEntries g n ?F linkEntries1 = Inr ?raw2"
    unfolding given
    by (rule recomputeLinkEntries_second_pass_reset [OF labels_fileObjects [OF norm] raw])
       (simp add: resetLink_indexedLink)
  let ?es2 = "map entryOfFile ?F @ map entryOfLink ?raw2"
  have rel: "list_all2 sameButIdx ?es2 ?es"
    by (intro list_all2_appendI) (simp_all add: list_all2_map1 list_all2_map2 list_all2_same sameButIdx_def entryOfLink_def)
  have o2: "sortedOrder ?c ?es2 = ?order"
    by (rule sortedOrder_sameButIdx [OF rel])
  have s2: "sortAndIndexEntries toLowerCase localeCompare ?es2
      = sortAndIndexEntries toLowerCase localeCompare ?es"
    by (rule sortAndIndexEntries_sameButIdx [OF rel])
  have "map (\<lambda>(k, link). indexedLink ?order (length fileEntries + k) link) (enumerate 0 ?raw2)
      = linkEntries1"
    unfolding l1 by (rule nth_equalityI) (simp_all add: nth_enumerate_eq)
  then show ?thesis
    by (simp add: recomputeEntries_def raw2 Let_def o2 s2 e1 del: map_map)
qed

text \<open>
  C8 at the failing input: one note with the labels \<open>b\<close>, \<open>a\<close> that links to \<open>t\<close>,
  and no existing links. The first pass creates the link with the note's labels as they are;
  the second pass, given the links of the first, resets them and merges the note's labels
  through \<open>normalizeLabels\<close>. The links and the sorted entries of the two passes differ.
\<close>

theorem recomputeEntries_second_pass_reorders_labels:
  "(case recomputeEntries getRepoId (normalizeLabels asciiToLowerCase codeUnitCompare)
          asciiToLowerCase codeUnitCompare [exampleNote ''r'' ''x'' ''n'' [''b'', ''a''] [''t'']] [] of
      Inl exception \<Rightarrow> False
    | Inr (linkEntries1, entries1) \<Rightarrow>
        (case recomputeEntries getRepoId (normalizeLabels asciiToLowerCase codeUnitCompare)
                asciiToLowerCase codeUnitCompare [exampleNote ''r'' ''x'' ''n'' [''b'', ''a''] [''t'']]
                linkEntries1 of
           Inl exception \<Rightarrow> False
         | Inr (linkEntries2, entries2) \<Rightarrow>
             map labels linkEntries1 = [map js [''b'', ''a'']] \<and>
             map labels linkEntries2 = [map js [''a'', ''b'']] \<and>
             map labels entries1 = [map js [''b'', ''a''], map js [''b'', ''a'']] \<and>
             map labels entries2 = [map js [''b'', ''a''], map js [''a'', ''b'']]))"
  by code_simp


end
